theory Spec2Isabelle
  imports Main
begin

section \<open>JavaScript strings and values\<close>

text \<open>
  JavaScript strings are modelled as \<open>string\<close>. A value that may be \<open>undefined\<close>
  (an array read past the end, an absent attribute) is an \<open>option\<close>; a template literal
  renders \<open>undefined\<close> as the text \<open>undefined\<close>.
\<close>

definition tpl :: "string option \<Rightarrow> string" where
  "tpl v = (case v of None \<Rightarrow> ''undefined'' | Some s \<Rightarrow> s)"

text \<open>\<open>s.split(c)\<close> for a one-character separator: always at least one piece.\<close>

fun split_on :: "char \<Rightarrow> string \<Rightarrow> string list" where
  "split_on c [] = [[]]"
| "split_on c (x # xs) =
     (if x = c then [] # split_on c xs
      else (case split_on c xs of
              [] \<Rightarrow> [[x]]
            | y # ys \<Rightarrow> (x # y) # ys))"

text \<open>\<open>arr[i]\<close>: \<open>undefined\<close> past the end.\<close>

definition js_index :: "'a list \<Rightarrow> nat \<Rightarrow> 'a option" where
  "js_index xs i = (if i < length xs then Some (xs ! i) else None)"

text \<open>\<open>s.startsWith(p)\<close>.\<close>

definition startsWith :: "string \<Rightarrow> string \<Rightarrow> bool" where
  "startsWith s p = (take (length p) s = p)"

section \<open>Embed URL construction (extractor)\<close>

definition SOURCE_URL :: string where
  "SOURCE_URL = ''https://vidsrc.xyz/embed''"

record media_obj =
  obj_id :: "string option"
  obj_season :: "string option"
  obj_episode :: "string option"

text \<open>\<open>String(id || '')\<close> is \<open>id\<close> for every string \<open>id\<close> (the empty string is falsy and
  is replaced by the empty string).\<close>

definition getObject :: "string \<Rightarrow> media_obj" where
  "getObject ident =
     (let arr = split_on CHR '':'' (if ident = [] then [] else ident)
      in \<lparr>obj_id = js_index arr 0, obj_season = js_index arr 1, obj_episode = js_index arr 2\<rparr>)"

definition getUrl :: "string \<Rightarrow> string \<Rightarrow> string" where
  "getUrl ident type =
     (if type = ''movie'' then SOURCE_URL @ ''/movie/'' @ ident
      else (let obj = getObject ident
            in SOURCE_URL @ ''/tv/'' @ tpl (obj_id obj) @ ''/'' @ tpl (obj_season obj)
                 @ ''-'' @ tpl (obj_episode obj)))"

section \<open>Errors, the network and asynchronous computations\<close>

text \<open>
  Exceptions are values. \<open>HttpError\<close> is the error the fetchers build from a response
  that is not ok (the status, or nothing when there is no response object, and the URL);
  \<open>Thrown\<close> stands for any exception raised by the platform or a library (transport
  failure, abort on timeout, body read failure, URL or parser exception);
  \<open>NullThrown\<close> is \<open>throw null\<close>.
\<close>

datatype error = HttpError "nat option" string | Thrown string | NullThrown

text \<open>A response: its status and what \<open>text()\<close> settles to. \<open>ok\<close> is the Fetch
  standard's definition.\<close>

record response =
  status :: nat
  body :: "error + string"

definition ok :: "response \<Rightarrow> bool" where
  "ok r = (200 \<le> status r \<and> status r \<le> 299)"

datatype outcome = Rejected error | NoResponse | Responded response

text \<open>
  The request as the network sees it. Of the headers only \<open>Referer\<close> varies with the
  arguments; the constant fields and the randomly drawn user agent are left to the
  network's dependence on the history.
\<close>

record headers =
  referer :: string

record request =
  req_url :: string
  req_headers :: "headers option"
  req_timeout :: nat

datatype event = Fetch request | Sleep nat

type_synonym history = "event list"

text \<open>
  The network is an arbitrary function of everything that happened so far and the
  request: it answers with a rejection (transport error or abort by the timeout timer),
  a missing response, or a response. An asynchronous computation maps the history to its
  settled value (\<open>Inl\<close>: rejected) and the extended history.
\<close>

type_synonym network = "history \<Rightarrow> request \<Rightarrow> outcome"

type_synonym 'a io = "history \<Rightarrow> (error + 'a) \<times> history"

definition ret :: "'a \<Rightarrow> 'a io" where
  "ret x = (\<lambda>h. (Inr x, h))"

definition throw :: "error \<Rightarrow> 'a io" where
  "throw e = (\<lambda>h. (Inl e, h))"

definition lift :: "error + 'a \<Rightarrow> 'a io" where
  "lift r = (\<lambda>h. (r, h))"

definition bind :: "'a io \<Rightarrow> ('a \<Rightarrow> 'b io) \<Rightarrow> 'b io" where
  "bind m f = (\<lambda>h. case m h of (Inl e, h') \<Rightarrow> (Inl e, h') | (Inr x, h') \<Rightarrow> f x h')"

definition catch :: "'a io \<Rightarrow> (error \<Rightarrow> 'a io) \<Rightarrow> 'a io" where
  "catch m handler = (\<lambda>h. case m h of (Inl e, h') \<Rightarrow> handler e h' | (Inr x, h') \<Rightarrow> (Inr x, h'))"

definition text_of :: "response \<Rightarrow> string io" where
  "text_of r = lift (body r)"

definition getRandomizedHeaders :: "string option \<Rightarrow> headers" where
  "getRandomizedHeaders baseDomain =
     \<lparr>referer = (case baseDomain of
                    None \<Rightarrow> ''https://cloudnestra.com''
                  | Some d \<Rightarrow> if d = [] then ''https://cloudnestra.com'' else d) @ ''/''\<rparr>"

section \<open>The resilient fetcher\<close>

text \<open>
  One pass through the \<open>try\<close> block of the retry loop ends in one of three ways:
  the response is returned, an exception reaches the \<open>catch\<close> clause (a rejected
  fetch, or the error thrown for a 4xx status), or control falls out of the block with
  \<open>lastErr\<close> set (any other response that is not ok).
\<close>

datatype attempt_result = Returned response | Threw error | FellThrough error

definition attempt_body :: "outcome \<Rightarrow> string \<Rightarrow> attempt_result" where
  "attempt_body out url =
     (case out of
        Rejected e \<Rightarrow> Threw e
      | NoResponse \<Rightarrow> FellThrough (HttpError None url)
      | Responded resp \<Rightarrow>
          if \<not> ok resp then
            (let lastErr = HttpError (Some (status resp)) url
             in if 400 \<le> status resp \<and> status resp < 500 then Threw lastErr
                else FellThrough lastErr)
          else Returned resp)"

text \<open>
  The loop \<open>while (attempt <= retries)\<close>. The \<open>catch\<close> clause rethrows on the last
  attempt and otherwise sleeps \<open>delay * attempt\<close> milliseconds and goes round again;
  after the loop the last error is thrown.
\<close>

function fetch_loop ::
  "network \<Rightarrow> nat \<Rightarrow> request \<Rightarrow> nat \<Rightarrow> nat \<Rightarrow> error option \<Rightarrow> response io" where
  "fetch_loop nw delay req retries attempt lastErr h =
     (if attempt \<le> retries then
        (let attempt' = attempt + 1; h1 = h @ [Fetch req]
         in case attempt_body (nw h req) (req_url req) of
              Returned resp \<Rightarrow> (Inr resp, h1)
            | FellThrough e \<Rightarrow> fetch_loop nw delay req retries attempt' (Some e) h1
            | Threw e \<Rightarrow>
                if attempt' > retries then (Inl e, h1)
                else fetch_loop nw delay req retries attempt' (Some e)
                       (h1 @ [Sleep (delay * attempt')]))
      else (Inl (case lastErr of None \<Rightarrow> NullThrown | Some e \<Rightarrow> e), h))"
  by pat_completeness auto
termination
  by (relation "measure (\<lambda>(nw, delay, req, retries, attempt, lastErr, h). Suc retries - attempt)")
     auto

declare fetch_loop.simps [simp del]

text \<open>The extractor's fetcher (backoff base 200 ms) and the manifest module's local
  copy (backoff base 150 ms).\<close>

definition fetchWithTimeout ::
  "network \<Rightarrow> string \<Rightarrow> headers option \<Rightarrow> nat \<Rightarrow> nat \<Rightarrow> response io" where
  "fetchWithTimeout nw url options timeoutMs retries =
     fetch_loop nw 200 \<lparr>req_url = url, req_headers = options, req_timeout = timeoutMs\<rparr>
       retries 0 None"

definition hls_fetchWithTimeout ::
  "network \<Rightarrow> string \<Rightarrow> headers option \<Rightarrow> nat \<Rightarrow> nat \<Rightarrow> response io" where
  "hls_fetchWithTimeout nw url options timeoutMs retries =
     fetch_loop nw 150 \<lparr>req_url = url, req_headers = options, req_timeout = timeoutMs\<rparr>
       retries 0 None"

text \<open>The number of requests a history records.\<close>

fun is_fetch :: "event \<Rightarrow> bool" where
  "is_fetch (Fetch r) = True"
| "is_fetch (Sleep n) = False"

definition attempts :: "history \<Rightarrow> nat" where
  "attempts h = length (filter is_fetch h)"

text \<open>A network on which every request is answered with status 404.\<close>

definition always_404 :: network where
  "always_404 = (\<lambda>h r. Responded \<lparr>status = 404, body = Inr ''Not Found''\<rparr>)"

section \<open>Manifest parsing (hls-utils)\<close>

text \<open>
  Numbers. The manifest library delivers \<open>BANDWIDTH\<close> and the two components of
  \<open>RESOLUTION\<close> as results of \<open>parseInt\<close>: an integer or \<open>NaN\<close>. The frame rate is
  only copied into the result; it is kept as a decimal number, given by its digits and
  the number of decimal places.
\<close>

datatype jsnum = NaN | Num int

datatype frame_rate = FrameRate int nat

record resolution =
  res_width :: "jsnum option"
  res_height :: "jsnum option"

record attributes =
  BANDWIDTH :: "jsnum option"
  RESOLUTION :: "resolution option"
  CODECS :: "string option"
  FRAME_RATE :: "frame_rate option"

record playlist =
  pl_attributes :: "attributes option"
  pl_uri :: "string option"

text \<open>\<open>playlists\<close> is \<open>None\<close> when the parsed manifest carries no array of that name.\<close>

record manifest =
  playlists :: "playlist list option"

record quality =
  q_resolution :: "string option"
  q_bandwidth :: jsnum
  q_codecs :: "string option"
  q_frameRate :: "frame_rate option"
  q_url :: string
  q_title :: string

record hls_manifest =
  masterUrl :: string
  qualities :: "quality list"

text \<open>\<open>Number(v)\<close> of a possibly undefined number, \<open>x || 0\<close> on a number (\<open>NaN\<close> and
  zero are falsy), and their combination \<open>Number(v || 0)\<close>.\<close>

definition Number_of :: "jsnum option \<Rightarrow> jsnum" where
  "Number_of v = (case v of None \<Rightarrow> NaN | Some n \<Rightarrow> n)"

definition or0 :: "jsnum \<Rightarrow> jsnum" where
  "or0 x = (case x of NaN \<Rightarrow> Num 0 | Num n \<Rightarrow> if n = 0 then Num 0 else Num n)"

definition Number_or0 :: "jsnum option \<Rightarrow> jsnum" where
  "Number_or0 v =
     (case v of
        None \<Rightarrow> Num 0
      | Some NaN \<Rightarrow> Num 0
      | Some (Num n) \<Rightarrow> if n = 0 then Num 0 else Num n)"

text \<open>Arithmetic and comparison with \<open>NaN\<close>: the difference is \<open>NaN\<close>, every comparison
  is false.\<close>

definition js_minus :: "jsnum \<Rightarrow> jsnum \<Rightarrow> jsnum" where
  "js_minus a b = (case (a, b) of (Num x, Num y) \<Rightarrow> Num (x - y) | _ \<Rightarrow> NaN)"

definition js_ge :: "jsnum \<Rightarrow> int \<Rightarrow> bool" where
  "js_ge a k = (case a of NaN \<Rightarrow> False | Num x \<Rightarrow> k \<le> x)"

definition js_gt :: "jsnum \<Rightarrow> int \<Rightarrow> bool" where
  "js_gt a k = (case a of NaN \<Rightarrow> False | Num x \<Rightarrow> k < x)"

text \<open>Decimal rendering of a number in a template literal (integers below the
  magnitude where JavaScript switches to exponent notation).\<close>

fun show_nat :: "nat \<Rightarrow> string" where
  "show_nat n =
     (if n < 10 then [''0123456789'' ! n]
      else show_nat (n div 10) @ [''0123456789'' ! (n mod 10)])"

declare show_nat.simps [simp del]

definition show_num :: "jsnum \<Rightarrow> string" where
  "show_num a =
     (case a of
        NaN \<Rightarrow> ''NaN''
      | Num i \<Rightarrow> if i < 0 then ''-'' @ show_nat (nat (- i)) else show_nat (nat i))"

definition tpl_num :: "jsnum option \<Rightarrow> string" where
  "tpl_num v = (case v of None \<Rightarrow> ''undefined'' | Some a \<Rightarrow> show_num a)"

text \<open>
  \<open>Array.prototype.sort\<close> with a comparison function. The sort is stable and a
  comparison result of \<open>NaN\<close> counts as zero; for a consistent comparison function
  every stable sort returns the same array, computed here by insertion: an element
  moves behind exactly those elements of the sorted rest it compares greater than.
\<close>

definition cmp_value :: "jsnum \<Rightarrow> int" where
  "cmp_value v = (case v of NaN \<Rightarrow> 0 | Num n \<Rightarrow> n)"

fun js_insert :: "('a \<Rightarrow> 'a \<Rightarrow> jsnum) \<Rightarrow> 'a \<Rightarrow> 'a list \<Rightarrow> 'a list" where
  "js_insert cmp x [] = [x]"
| "js_insert cmp x (y # ys) =
     (if cmp_value (cmp x y) > 0 then y # js_insert cmp x ys else x # y # ys)"

fun js_sort :: "('a \<Rightarrow> 'a \<Rightarrow> jsnum) \<Rightarrow> 'a list \<Rightarrow> 'a list" where
  "js_sort cmp [] = []"
| "js_sort cmp (x # xs) = js_insert cmp x (js_sort cmp xs)"

text \<open>The libraries the parser relies on: the manifest parser and URL resolution
  (\<open>new URL(uri, base).toString()\<close>), either of which may throw.\<close>

record hls_env =
  m3u8_parse :: "string \<Rightarrow> error + manifest"
  url_resolve :: "string \<Rightarrow> string \<Rightarrow> error + string"

text \<open>The comparison function of the sort:
  \<open>(a.attributes && Number(a.attributes.BANDWIDTH)) || 0\<close> for both, then \<open>B - A\<close>.
  Without attributes the left operand of \<open>||\<close> is \<open>undefined\<close>, which is falsy like
  \<open>NaN\<close> and replaced by zero in the same way.\<close>

definition sort_key :: "playlist \<Rightarrow> jsnum" where
  "sort_key a =
     or0 (case pl_attributes a of None \<Rightarrow> NaN | Some at \<Rightarrow> Number_of (BANDWIDTH at))"

definition bandwidth_cmp :: "playlist \<Rightarrow> playlist \<Rightarrow> jsnum" where
  "bandwidth_cmp a b = js_minus (sort_key b) (sort_key a)"

text \<open>The body of the loop over the sorted playlists. \<open>attrs\<close> is
  \<open>playlist.attributes || {}\<close>: every attribute of an absent record is undefined.\<close>

definition empty_attributes :: attributes where
  "empty_attributes = \<lparr>BANDWIDTH = None, RESOLUTION = None, CODECS = None, FRAME_RATE = None\<rparr>"

definition playlist_url :: "hls_env \<Rightarrow> playlist \<Rightarrow> string \<Rightarrow> error + string" where
  "playlist_url env pl baseUrl =
     (case pl_uri pl of
        None \<Rightarrow> url_resolve env ''undefined'' baseUrl
      | Some u \<Rightarrow> if u \<noteq> [] \<and> startsWith u ''http'' then Inr u else url_resolve env u baseUrl)"

definition resolution_string :: "attributes \<Rightarrow> string option" where
  "resolution_string attrs =
     (case RESOLUTION attrs of
        None \<Rightarrow> None
      | Some r \<Rightarrow> Some (tpl_num (res_width r) @ ''x'' @ tpl_num (res_height r)))"

definition bandwidth_title :: "attributes \<Rightarrow> string" where
  "bandwidth_title attrs =
     (let bandwidth = Number_or0 (BANDWIDTH attrs)
      in if js_gt bandwidth 5000000 then ''High Quality''
         else if js_gt bandwidth 2000000 then ''Medium Quality'' else ''Low Quality'')"

text \<open>The label. The first branch is taken when \<open>resolution && attrs.RESOLUTION\<close> is
  truthy: the resolution text is defined and not empty.\<close>

definition quality_title :: "attributes \<Rightarrow> string" where
  "quality_title attrs =
     (case (resolution_string attrs, RESOLUTION attrs) of
        (Some resolution, Some r) \<Rightarrow>
          if resolution \<noteq> [] then
            (let h = Number_or0 (res_height r)
             in if js_ge h 1080 then resolution @ '' (1080p)''
                else if js_ge h 720 then resolution @ '' (720p)''
                else if js_ge h 480 then resolution @ '' (480p)''
                else resolution)
          else bandwidth_title attrs
      | _ \<Rightarrow> bandwidth_title attrs)"

definition attrs_of :: "playlist \<Rightarrow> attributes" where
  "attrs_of pl = (case pl_attributes pl of None \<Rightarrow> empty_attributes | Some at \<Rightarrow> at)"

definition quality_of :: "hls_env \<Rightarrow> playlist \<Rightarrow> string \<Rightarrow> error + quality" where
  "quality_of env pl baseUrl =
     (let attrs = attrs_of pl
      in case playlist_url env pl baseUrl of
           Inl e \<Rightarrow> Inl e
         | Inr playlistUrl \<Rightarrow>
             Inr \<lparr>q_resolution = resolution_string attrs,
                  q_bandwidth = Number_or0 (BANDWIDTH attrs),
                  q_codecs = CODECS attrs,
                  q_frameRate = FRAME_RATE attrs,
                  q_url = playlistUrl,
                  q_title = quality_title attrs\<rparr>)"

fun qualities_loop :: "hls_env \<Rightarrow> string \<Rightarrow> playlist list \<Rightarrow> error + quality list" where
  "qualities_loop env baseUrl [] = Inr []"
| "qualities_loop env baseUrl (pl # pls) =
     (case quality_of env pl baseUrl of
        Inl e \<Rightarrow> Inl e
      | Inr q \<Rightarrow>
          (case qualities_loop env baseUrl pls of
             Inl e \<Rightarrow> Inl e
           | Inr qs \<Rightarrow> Inr (q # qs)))"

text \<open>\<open>parseHLSMaster\<close>: any exception inside makes the result \<open>null\<close>.\<close>

definition parseHLSMaster :: "hls_env \<Rightarrow> string \<Rightarrow> string \<Rightarrow> hls_manifest option" where
  "parseHLSMaster env masterPlaylistContent baseUrl =
     (case m3u8_parse env masterPlaylistContent of
        Inl e \<Rightarrow> None
      | Inr mf \<Rightarrow>
          (case qualities_loop env baseUrl
                  (case playlists mf of
                     None \<Rightarrow> []
                   | Some pls \<Rightarrow> if pls \<noteq> [] then js_sort bandwidth_cmp pls else []) of
             Inl e \<Rightarrow> None
           | Inr qs \<Rightarrow> Some \<lparr>masterUrl = baseUrl, qualities = qs\<rparr>))"

text \<open>The bandwidth of a variant as a rank, and the reading of a possibly missing
  number, in both of which \<open>NaN\<close> and a missing value count as zero.\<close>

definition bandwidth_rank :: "quality \<Rightarrow> int" where
  "bandwidth_rank q = cmp_value (q_bandwidth q)"

definition num_or_zero :: "jsnum option \<Rightarrow> int" where
  "num_or_zero v = (case v of Some (Num n) \<Rightarrow> n | _ \<Rightarrow> 0)"

definition key_int :: "playlist \<Rightarrow> int" where
  "key_int a = cmp_value (sort_key a)"

text \<open>Sample inputs: a manifest of two variants without resolution, listed in ascending
  bandwidth, and a variant with a resolution.\<close>

definition demo_playlist :: "int \<Rightarrow> string \<Rightarrow> playlist" where
  "demo_playlist b u =
     \<lparr>pl_attributes = Some \<lparr>BANDWIDTH = Some (Num b), RESOLUTION = None, CODECS = None,
                            FRAME_RATE = None\<rparr>,
      pl_uri = Some u\<rparr>"

definition demo_hls_env :: hls_env where
  "demo_hls_env =
     \<lparr>m3u8_parse = (\<lambda>s. Inr \<lparr>playlists = Some [demo_playlist 1500000 ''http://x/lo.m3u8'',
                                                  demo_playlist 6000000 ''http://x/hi.m3u8'']\<rparr>),
      url_resolve = (\<lambda>u b. Inl (Thrown ''Invalid URL''))\<rparr>"

definition demo_quality :: "int \<Rightarrow> string \<Rightarrow> string \<Rightarrow> quality" where
  "demo_quality b u t =
     \<lparr>q_resolution = None, q_bandwidth = Num b, q_codecs = None, q_frameRate = None,
      q_url = u, q_title = t\<rparr>"

definition hd_playlist :: playlist where
  "hd_playlist =
     \<lparr>pl_attributes =
        Some \<lparr>BANDWIDTH = Some (Num 6000000),
              RESOLUTION = Some \<lparr>res_width = Some (Num 1280), res_height = Some (Num 720)\<rparr>,
              CODECS = None, FRAME_RATE = None\<rparr>,
      pl_uri = Some ''http://x/hd.m3u8''\<rparr>"

section \<open>Whitespace, substrings and the inline-script patterns\<close>

text \<open>The characters \<open>\s\<close> and \<open>trim\<close> treat as white space, as far as they are
  single bytes: tab, line feed, vertical tab, form feed, carriage return, space and the
  no-break space.\<close>

definition is_js_space :: "char \<Rightarrow> bool" where
  "is_js_space c =
     (c = CHR 0x09 \<or> c = CHR 0x0A \<or> c = CHR 0x0B \<or> c = CHR 0x0C \<or> c = CHR 0x0D \<or>
      c = CHR 0x20 \<or> c = CHR 0xA0)"

definition trim :: "string \<Rightarrow> string" where
  "trim s = rev (dropWhile is_js_space (rev (dropWhile is_js_space s)))"

text \<open>\<open>s.includes(p)\<close> and \<open>s.replace(p, r)\<close> with a string pattern (first occurrence
  only).\<close>

fun js_includes :: "string \<Rightarrow> string \<Rightarrow> bool" where
  "js_includes [] p = (p = [])"
| "js_includes (c # cs) p = (startsWith (c # cs) p \<or> js_includes cs p)"

fun replace_first :: "string \<Rightarrow> string \<Rightarrow> string \<Rightarrow> string" where
  "replace_first p r [] = (if p = [] then r else [])"
| "replace_first p r (c # cs) =
     (if startsWith (c # cs) p then r @ drop (length p) (c # cs)
      else c # replace_first p r cs)"

text \<open>
  The two patterns \<open>src:\s*'([^']*)'\<close> and \<open>file:\s*'([^']*)'\<close> differ in the keyword
  only. After the keyword the match skips white space, needs a quote, takes everything
  up to the next quote and needs that quote; the classes are disjoint, so backtracking
  finds nothing the greedy reading misses. The search returns the capture of the
  leftmost match.
\<close>

definition quote :: char where
  "quote = CHR 0x27"

definition capture_quoted :: "string \<Rightarrow> string option" where
  "capture_quoted s =
     (case dropWhile is_js_space s of
        [] \<Rightarrow> None
      | c # cs \<Rightarrow>
          if c = quote then
            (case dropWhile (\<lambda>x. x \<noteq> quote) cs of
               [] \<Rightarrow> None
             | q # rest \<Rightarrow> Some (takeWhile (\<lambda>x. x \<noteq> quote) cs))
          else None)"

fun regex_search :: "string \<Rightarrow> string \<Rightarrow> string option" where
  "regex_search key [] = None"
| "regex_search key (c # cs) =
     (case (if startsWith (c # cs) key then capture_quoted (drop (length key) (c # cs))
            else None) of
        Some v \<Rightarrow> Some v
      | None \<Rightarrow> regex_search key cs)"

section \<open>The embed page loader\<close>

text \<open>
  The DOM library is a black box that may throw at every call. A loaded page is given by
  what the three queries of the loader answer: the text of the title element, the
  \<open>src\<close> attribute of the first iframe (possibly undefined) and the elements matching
  the server selector; a server element by its text and its \<open>data-hash\<close> attribute.
\<close>

record server_el =
  el_text :: "error + string"
  el_hash :: "error + string option"

record page =
  title_text :: "error + string"
  iframe_src :: "error + string option"
  server_elems :: "error + server_el list"

record server_entry =
  srv_name :: string
  srv_dataHash :: "string option"

record load_result =
  lr_servers :: "server_entry list"
  lr_title :: string
  lr_baseDomain :: string

text \<open>Everything outside the repository that a run depends on: the network, the DOM
  library, \<open>new URL(s).origin\<close>, the manifest libraries, and the order in which the
  pending operations of the worker pool complete.\<close>

record env =
  net :: network
  cheerio_load :: "string \<Rightarrow> error + page"
  url_origin :: "string \<Rightarrow> error + string"
  hls :: hls_env
  sched :: "nat list"

definition default_result :: load_result where
  "default_result = \<lparr>lr_servers = [], lr_title = [], lr_baseDomain = ''https://cloudnestra.com''\<rparr>"

text \<open>The inner \<open>try\<close> around the base domain: any exception leaves the fallback.\<close>

definition infer_baseDomain :: "env \<Rightarrow> string \<Rightarrow> string io" where
  "infer_baseDomain env iframeSrc =
     catch
       (if iframeSrc \<noteq> [] then
          (let full = (if startsWith iframeSrc ''//'' then ''https:'' @ iframeSrc else iframeSrc)
           in lift (url_origin env full))
        else ret ''https://cloudnestra.com'')
       (\<lambda>e. ret ''https://cloudnestra.com'')"

text \<open>The callback of \<open>each\<close>, with its own \<open>try\<close>: an element whose text or
  attribute cannot be read pushes nothing. \<open>attr || null\<close> turns an empty hash into
  \<open>null\<close>.\<close>

definition server_of :: "server_el \<Rightarrow> server_entry option" where
  "server_of el =
     (case el_text el of
        Inl e \<Rightarrow> None
      | Inr t \<Rightarrow>
          (case el_hash el of
             Inl e \<Rightarrow> None
           | Inr a \<Rightarrow>
               Some \<lparr>srv_name = trim t,
                     srv_dataHash = (case a of None \<Rightarrow> None
                                     | Some v \<Rightarrow> if v = [] then None else Some v)\<rparr>))"

fun each_server :: "server_el list \<Rightarrow> server_entry list \<Rightarrow> server_entry list" where
  "each_server [] servers = servers"
| "each_server (el # els) servers =
     each_server els (case server_of el of None \<Rightarrow> servers | Some s \<Rightarrow> servers @ [s])"

definition serversLoad :: "env \<Rightarrow> string \<Rightarrow> load_result io" where
  "serversLoad env html =
     catch
       (bind (lift (cheerio_load env html)) (\<lambda>pg.
        bind (lift (title_text pg)) (\<lambda>t.
        bind (lift (iframe_src pg)) (\<lambda>a.
        bind (infer_baseDomain env (case a of None \<Rightarrow> [] | Some s \<Rightarrow> s)) (\<lambda>baseDomain.
        bind (lift (server_elems pg)) (\<lambda>els.
        ret \<lparr>lr_servers = each_server els [], lr_title = trim t,
             lr_baseDomain = baseDomain\<rparr>))))))
       (\<lambda>e. ret default_result)"

text \<open>What the loader's outer \<open>catch\<close> sees: the load or one of the three queries
  throws.\<close>

definition parse_failed :: "env \<Rightarrow> string \<Rightarrow> bool" where
  "parse_failed env html =
     (case cheerio_load env html of
        Inl e \<Rightarrow> True
      | Inr pg \<Rightarrow> isl (title_text pg) \<or> isl (iframe_src pg) \<or> isl (server_elems pg))"

section \<open>The per-server and player-page resolvers\<close>

record rcp_result =
  rcp_image :: string
  rcp_data :: string

definition rcpGrabber :: "string \<Rightarrow> rcp_result option" where
  "rcpGrabber html =
     (case regex_search ''src:'' html of
        None \<Rightarrow> None
      | Some d \<Rightarrow> Some \<lparr>rcp_image = [], rcp_data = d\<rparr>)"

definition PRORCPhandler :: "env \<Rightarrow> string \<Rightarrow> string \<Rightarrow> string option io" where
  "PRORCPhandler env baseDomain prorcp =
     (if prorcp = [] then ret None
      else
        catch
          (bind (fetchWithTimeout (net env) (baseDomain @ ''/prorcp/'' @ prorcp)
                   (Some (getRandomizedHeaders (Some baseDomain))) 7000 1) (\<lambda>resp.
           if \<not> ok resp then ret None
           else bind (text_of resp) (\<lambda>text.
                ret (case regex_search ''file:'' text of
                       None \<Rightarrow> None
                     | Some m1 \<Rightarrow> if m1 \<noteq> [] then Some m1 else None))))
          (\<lambda>e. ret None))"

definition fetchAndParseHLS :: "env \<Rightarrow> string \<Rightarrow> hls_manifest option io" where
  "fetchAndParseHLS env url =
     catch
       (bind (hls_fetchWithTimeout (net env) url None 5000 1) (\<lambda>resp.
        if \<not> ok resp then ret None
        else bind (text_of resp) (\<lambda>content.
             if content = [] then ret None
             else if \<not> js_includes content ''#EXT-X-STREAM-INF'' then ret None
             else ret (parseHLSMaster (hls env) content url))))
       (\<lambda>e. ret None)"

text \<open>The base domain the loader settles on: the origin of the iframe source, or the
  fallback when there is no source or its URL does not parse.\<close>

definition origin_or_default :: "env \<Rightarrow> string \<Rightarrow> string" where
  "origin_or_default env src =
     (if src = [] then ''https://cloudnestra.com''
      else (case url_origin env (if startsWith src ''//'' then ''https:'' @ src else src) of
              Inl e \<Rightarrow> ''https://cloudnestra.com''
            | Inr d \<Rightarrow> d))"

text \<open>A sample page with three server elements, the second of which cannot be read,
  behind a DOM library that throws on empty input.\<close>

definition demo_page :: page where
  "demo_page =
     \<lparr>title_text = Inr '' Some Film '',
      iframe_src = Inr (Some ''//cdn.example/embed''),
      server_elems = Inr [\<lparr>el_text = Inr '' Alpha '', el_hash = Inr (Some ''h1'')\<rparr>,
                          \<lparr>el_text = Inl (Thrown ''bad element''), el_hash = Inr (Some ''h2'')\<rparr>,
                          \<lparr>el_text = Inr ''Gamma'', el_hash = Inr None\<rparr>]\<rparr>"

definition demo_env :: env where
  "demo_env =
     \<lparr>net = (\<lambda>h r. NoResponse),
      cheerio_load = (\<lambda>s. if s = [] then Inl (Thrown ''no input'') else Inr demo_page),
      url_origin = (\<lambda>s. Inr ''https://cdn.example''),
      hls = demo_hls_env,
      sched = []\<rparr>"

section \<open>The concurrency limiter\<close>

text \<open>
  A cell of the results array: never written (a hole of the sparse array), \<open>null\<close>
  written by the \<open>catch\<close> clause, or the value \<open>fn\<close> settled with. An indexed write
  past the end extends the array with holes.
\<close>

datatype 'b cell = Hole | Null | Val 'b

definition js_set :: "'b cell list \<Rightarrow> nat \<Rightarrow> 'b cell \<Rightarrow> 'b cell list" where
  "js_set xs i v =
     (if i < length xs then xs[i := v] else xs @ replicate (i - length xs) Hole @ [v])"

text \<open>
  A worker has not run yet, is suspended at the \<open>await\<close> of the call for the index it
  claimed, or has left its loop. The pool is the shared counter \<open>i\<close>, the results array
  and the workers.
\<close>

datatype worker = Unstarted | Awaiting nat | Done

record 'b pool =
  p_next :: nat
  p_results :: "'b cell list"
  p_workers :: "worker list"

text \<open>The head of a worker's loop, run without interruption: with an index left it
  claims it (\<open>idx = i++\<close>) and suspends on the call, otherwise it finishes.\<close>

definition loop_head :: "nat \<Rightarrow> nat \<Rightarrow> 'b pool \<Rightarrow> 'b pool" where
  "loop_head n w st =
     (if p_next st < n then
        st\<lparr>p_next := p_next st + 1, p_workers := (p_workers st)[w := Awaiting (p_next st)]\<rparr>
      else st\<lparr>p_workers := (p_workers st)[w := Done]\<rparr>)"

text \<open>Creating the workers runs each, in order, up to its first \<open>await\<close>.\<close>

definition spawn :: "nat \<Rightarrow> nat \<Rightarrow> 'b pool" where
  "spawn limit n =
     foldl (\<lambda>st w. loop_head n w st)
       \<lparr>p_next = 0, p_results = [], p_workers = replicate limit Unstarted\<rparr> [0..<limit]"

text \<open>
  A suspended worker resumes when its call settles: the value, or \<open>null\<close> for a
  rejection, is written at the claimed index and the worker goes round its loop. The
  call's requests enter the history here, as one step: the calls of different workers
  are not interleaved with each other in the history. Since the network is an arbitrary
  function of the history, this restricts the order of the recorded events only, not
  the outcomes the calls can have. The worker and the index read here are in range: the
  worker is taken from the suspended ones and an index is claimed only below the number
  of items.
\<close>

definition cell_of :: "error + 'b \<Rightarrow> 'b cell" where
  "cell_of r = (case r of Inl e \<Rightarrow> Null | Inr v \<Rightarrow> Val v)"

definition resume ::
  "('a \<Rightarrow> nat \<Rightarrow> 'b io) \<Rightarrow> 'a list \<Rightarrow> nat \<Rightarrow> 'b pool \<Rightarrow> history \<Rightarrow> 'b pool \<times> history" where
  "resume fn items w st h =
     (case p_workers st ! w of
        Awaiting idx \<Rightarrow>
          (case fn (items ! idx) idx h of
             (r, h') \<Rightarrow>
               (loop_head (length items) w
                  (st\<lparr>p_results := js_set (p_results st) idx (cell_of r)\<rparr>),
                h'))
      | _ \<Rightarrow> (st, h))"

text \<open>The suspended workers, and the one the schedule lets settle next: the head of the
  schedule picks among them, an exhausted schedule picks the first.\<close>

fun is_awaiting :: "worker \<Rightarrow> bool" where
  "is_awaiting (Awaiting idx) = True"
| "is_awaiting w = False"

definition pending :: "worker list \<Rightarrow> nat list" where
  "pending ws = filter (\<lambda>w. is_awaiting (ws ! w)) [0..<length ws]"

definition pick :: "nat list \<Rightarrow> nat list \<Rightarrow> nat" where
  "pick schedule ps = ps ! ((case schedule of [] \<Rightarrow> 0 | k # ks \<Rightarrow> k) mod length ps)"

text \<open>What is left to do: the indices not yet claimed and the calls not yet settled.\<close>

definition pool_measure :: "nat \<Rightarrow> 'b pool \<Rightarrow> nat" where
  "pool_measure n st = (n - p_next st) + length (pending (p_workers st))"

text \<open>\<open>Promise.all\<close> over the workers: the pool runs until no worker is suspended.\<close>

function run_pool ::
  "('a \<Rightarrow> nat \<Rightarrow> 'b io) \<Rightarrow> 'a list \<Rightarrow> nat list \<Rightarrow> 'b pool \<Rightarrow> history \<Rightarrow> 'b pool \<times> history" where
  "run_pool fn items schedule st h =
     (if pending (p_workers st) = [] then (st, h)
      else (case resume fn items (pick schedule (pending (p_workers st))) st h of
              (st', h') \<Rightarrow> run_pool fn items (tl schedule) st' h'))"
  by pat_completeness auto


text \<open>\<open>mapWithConcurrencyLimit\<close> itself: the workers are created, the pool runs to
  completion and the results array is returned; nothing in it rejects.\<close>

definition mapWithConcurrencyLimit ::
  "nat list \<Rightarrow> 'a list \<Rightarrow> ('a \<Rightarrow> nat \<Rightarrow> 'b io) \<Rightarrow> nat \<Rightarrow> 'b cell list io" where
  "mapWithConcurrencyLimit schedule items fn limit h =
     (case run_pool fn items schedule (spawn limit (length items)) h of
        (st, h') \<Rightarrow> (Inr (p_results st), h'))"

text \<open>
  The invariant of the pool, for a property \<open>Q\<close> of the cells written: the counter
  never passes the number of items, the array never outgrows the counter, every index a
  worker waits for was claimed, every claimed index is either written (with a cell that
  satisfies \<open>Q\<close>) or awaited, and a worker has finished only when no index is left.
  The workers in \<open>X\<close> are between their write and the head of their loop and are
  exempt.
\<close>

definition transit_inv ::
  "(nat \<Rightarrow> 'b cell \<Rightarrow> bool) \<Rightarrow> nat \<Rightarrow> nat \<Rightarrow> nat set \<Rightarrow> 'b pool \<Rightarrow> bool" where
  "transit_inv Q n limit X st =
     (length (p_workers st) = limit \<and> p_next st \<le> n \<and> length (p_results st) \<le> p_next st \<and>
      (\<forall>w idx. w < limit \<and> w \<notin> X \<and> p_workers st ! w = Awaiting idx \<longrightarrow> idx < p_next st) \<and>
      (\<forall>idx. idx < p_next st \<longrightarrow>
         (idx < length (p_results st) \<and> Q idx (p_results st ! idx)) \<or>
         (\<exists>w. w < limit \<and> w \<notin> X \<and> p_workers st ! w = Awaiting idx)) \<and>
      (\<forall>w. w < limit \<and> w \<notin> X \<and> p_workers st ! w = Done \<longrightarrow> p_next st = n))"

definition started :: "nat \<Rightarrow> 'b pool \<Rightarrow> bool" where
  "started k st = (\<forall>w. w < k \<longrightarrow> p_workers st ! w \<noteq> Unstarted)"

definition spawning ::
  "(nat \<Rightarrow> 'b cell \<Rightarrow> bool) \<Rightarrow> nat \<Rightarrow> nat \<Rightarrow> nat \<Rightarrow> 'b pool \<Rightarrow> bool" where
  "spawning Q n limit k st =
     (transit_inv Q n limit {} st \<and> started k st \<and>
      (\<forall>w. k \<le> w \<and> w < limit \<longrightarrow> p_workers st ! w = Unstarted))"

definition ready :: "(nat \<Rightarrow> 'b cell \<Rightarrow> bool) \<Rightarrow> nat \<Rightarrow> nat \<Rightarrow> 'b pool \<Rightarrow> bool" where
  "ready Q n limit st = (transit_inv Q n limit {} st \<and> started limit st)"

section \<open>The pipeline orchestrator\<close>

record stream_result =
  sr_name :: string
  sr_image :: string
  sr_mediaId :: string
  sr_stream :: string
  sr_referer :: string
  sr_hlsData :: "hls_manifest option"

text \<open>The first \<open>try\<close> block: the text of the embed page, or \<open>None\<close> when the
  function returns the empty list from inside it (response not ok, or any exception).\<close>

definition fetch_embed :: "env \<Rightarrow> string \<Rightarrow> string option io" where
  "fetch_embed env url =
     catch
       (bind (fetchWithTimeout (net env) url (Some (getRandomizedHeaders None)) 9000 2)
          (\<lambda>embedResp.
             if \<not> ok embedResp then ret None
             else bind (text_of embedResp) (\<lambda>embedText. ret (Some embedText))))
       (\<lambda>e. ret None)"

text \<open>The callback handed to the limiter for one server.\<close>

definition rcp_callback :: "env \<Rightarrow> string \<Rightarrow> server_entry \<Rightarrow> nat \<Rightarrow> rcp_result option io" where
  "rcp_callback env baseDomain srv idx =
     (case srv_dataHash srv of
        None \<Rightarrow> ret None
      | Some dataHash \<Rightarrow>
          if dataHash = [] then ret None
          else
            catch
              (bind (fetchWithTimeout (net env) (baseDomain @ ''/rcp/'' @ dataHash)
                       (Some (getRandomizedHeaders (Some baseDomain))) 9000 2)
                 (\<lambda>rcpResp.
                    if \<not> ok rcpResp then ret None
                    else bind (text_of rcpResp) (\<lambda>txt. ret (rcpGrabber txt))))
              (\<lambda>e. ret None))"

text \<open>\<open>if (!item) continue\<close>: a hole reads as \<open>undefined\<close>, and \<open>undefined\<close> and
  \<open>null\<close> are falsy.\<close>

definition item_of :: "rcp_result option cell \<Rightarrow> rcp_result option" where
  "item_of c = (case c of Val (Some item) \<Rightarrow> Some item | _ \<Rightarrow> None)"

text \<open>The \<open>try\<close> block of the loop body with its \<open>catch\<close>; the value is the result
  list after the item.\<close>

definition process_item ::
  "env \<Rightarrow> string \<Rightarrow> string \<Rightarrow> string \<Rightarrow> rcp_result \<Rightarrow> stream_result list
     \<Rightarrow> stream_result list io" where
  "process_item env title baseDomain ident item apiResponse =
     catch
       (if startsWith (rcp_data item) ''/prorcp/'' then
          bind (PRORCPhandler env baseDomain (replace_first ''/prorcp/'' [] (rcp_data item)))
            (\<lambda>streamUrl.
               case streamUrl of
                 None \<Rightarrow> ret apiResponse
               | Some u \<Rightarrow>
                   if u = [] then ret apiResponse
                   else bind (fetchAndParseHLS env u) (\<lambda>hlsData.
                        ret (apiResponse @
                             [\<lparr>sr_name = title, sr_image = rcp_image item, sr_mediaId = ident,
                               sr_stream = u, sr_referer = baseDomain, sr_hlsData = hlsData\<rparr>])))
        else ret apiResponse)
       (\<lambda>e. ret apiResponse)"

fun stream_loop ::
  "env \<Rightarrow> string \<Rightarrow> string \<Rightarrow> string \<Rightarrow> rcp_result option cell list \<Rightarrow> stream_result list
     \<Rightarrow> stream_result list io" where
  "stream_loop env title baseDomain ident [] apiResponse = ret apiResponse"
| "stream_loop env title baseDomain ident (c # cs) apiResponse =
     (case item_of c of
        None \<Rightarrow> stream_loop env title baseDomain ident cs apiResponse
      | Some item \<Rightarrow>
          bind (process_item env title baseDomain ident item apiResponse)
            (\<lambda>apiResponse'. stream_loop env title baseDomain ident cs apiResponse'))"

definition getStreamContent :: "env \<Rightarrow> string \<Rightarrow> string \<Rightarrow> stream_result list io" where
  "getStreamContent env ident type =
     (let url = getUrl ident type
      in bind (fetch_embed env url) (\<lambda>embed.
           case embed of
             None \<Rightarrow> ret []
           | Some embedText \<Rightarrow>
               bind (serversLoad env embedText) (\<lambda>loaded.
                 if lr_servers loaded = [] then ret []
                 else
                   bind (mapWithConcurrencyLimit (sched env) (lr_servers loaded)
                           (rcp_callback env (lr_baseDomain loaded)) 4)
                     (\<lambda>rcpResponses.
                        stream_loop env (lr_title loaded) (lr_baseDomain loaded) ident
                          rcpResponses []))))"

text \<open>A sample callback for the limiter: it rejects at index 1 and appends an
  exclamation mark elsewhere.\<close>

definition demo_fn :: "string \<Rightarrow> nat \<Rightarrow> string io" where
  "demo_fn x i = (if i = 1 then throw (Thrown ''boom'') else ret (x @ ''!''))"

text \<open>An outcome that lets a fetch attempt return: a response whose status is ok.\<close>

definition answers_ok :: "outcome \<Rightarrow> bool" where
  "answers_ok out = (case out of Responded r \<Rightarrow> ok r | _ \<Rightarrow> False)"

section \<open>Properties of URL construction\<close>

lemma split_on_nonempty: "split_on c s \<noteq> []"
  by (induction s) (auto split: list.splits)

lemma split_on_no_sep: "c \<notin> set s \<Longrightarrow> split_on c s = [s]"
  by (induction s) auto

lemma split_on_append: "c \<notin> set s \<Longrightarrow> split_on c (s @ c # r) = s # split_on c r"
  by (induction s) auto

lemma split_on_three:
  assumes "c \<notin> set t" "c \<notin> set s" "c \<notin> set e"
  shows "split_on c (t @ c # s @ c # e) = [t, s, e]"
  using assms by (simp add: split_on_append split_on_no_sep)

text \<open>
  C7. A movie request yields \<open>SOURCE/movie/id\<close>; a series request whose id is
  \<open>titleId:season:episode\<close> (three components free of colons) yields
  \<open>SOURCE/tv/titleId/season-episode\<close>.
\<close>

theorem getUrl_movie_and_series:
  "getUrl ident ''movie'' = SOURCE_URL @ ''/movie/'' @ ident \<and>
   (CHR '':'' \<notin> set t \<and> CHR '':'' \<notin> set s \<and> CHR '':'' \<notin> set e \<longrightarrow>
      getUrl (t @ '':'' @ s @ '':'' @ e) ''series''
        = SOURCE_URL @ ''/tv/'' @ t @ ''/'' @ s @ ''-'' @ e)"
proof -
  have movie: "getUrl ident ''movie'' = SOURCE_URL @ ''/movie/'' @ ident"
    by (simp add: getUrl_def)
  have series: "getUrl (t @ '':'' @ s @ '':'' @ e) ''series''
        = SOURCE_URL @ ''/tv/'' @ t @ ''/'' @ s @ ''-'' @ e"
    if h: "CHR '':'' \<notin> set t" "CHR '':'' \<notin> set s" "CHR '':'' \<notin> set e"
  proof -
    have "split_on CHR '':'' (t @ CHR '':'' # s @ CHR '':'' # e) = [t, s, e]"
      using h by (rule split_on_three)
    then show ?thesis
      by (simp add: getUrl_def getObject_def js_index_def tpl_def)
  qed
  from movie series show ?thesis by blast
qed

theorem getUrl_movie_and_series_witness:
  "getUrl ''tt999'' ''movie'' = ''https://vidsrc.xyz/embed/movie/tt999'' \<and>
   getUrl ''tt123:1:2'' ''series'' = ''https://vidsrc.xyz/embed/tv/tt123/1-2''"
  using getUrl_movie_and_series [of "''tt999''" "''tt123''" "''1''" "''2''"]
  by (simp add: SOURCE_URL_def)

text \<open>
  C9. Every type other than exactly \<open>movie\<close> is handled as a series: the id is split on
  colons and the tv template is filled, a missing season or episode appearing as the
  text \<open>undefined\<close>. The function is total: no type is rejected.
\<close>

theorem getUrl_non_movie:
  "type \<noteq> ''movie'' \<Longrightarrow>
   getUrl ident type =
     SOURCE_URL @ ''/tv/'' @ hd (split_on CHR '':'' ident) @ ''/''
       @ (case js_index (split_on CHR '':'' ident) 1 of None \<Rightarrow> ''undefined'' | Some s \<Rightarrow> s)
       @ ''-''
       @ (case js_index (split_on CHR '':'' ident) 2 of None \<Rightarrow> ''undefined'' | Some e \<Rightarrow> e)"
  using split_on_nonempty [of "CHR '':''" ident]
  by (cases "split_on CHR '':'' ident")
     (simp_all add: getUrl_def getObject_def js_index_def tpl_def)

theorem getUrl_non_movie_witness:
  "getUrl ''tt123'' ''channel'' = ''https://vidsrc.xyz/embed/tv/tt123/undefined-undefined'' \<and>
   getUrl ''tt123:4'' ''series'' = ''https://vidsrc.xyz/embed/tv/tt123/4-undefined''"
  using getUrl_non_movie [of "''channel''" "''tt123''"]
        getUrl_non_movie [of "''series''" "''tt123:4''"]
  by (simp add: SOURCE_URL_def js_index_def)

section \<open>Properties of the resilient fetcher\<close>

text \<open>On a network that answers every request with 404, each pass of the loop makes one
  request and none returns.\<close>

lemma fetch_loop_404_attempts:
  "attempts (snd (fetch_loop always_404 delay req retries attempt lastErr h)) =
     attempts h + (Suc retries - attempt)"
proof (induction "Suc retries - attempt" arbitrary: attempt lastErr h)
  case 0
  then have "\<not> attempt \<le> retries" by simp
  then show ?case by (simp add: fetch_loop.simps)
next
  case (Suc k)
  then have le: "attempt \<le> retries" and k: "k = Suc retries - (attempt + 1)" by simp_all
  have b: "attempt_body (always_404 h req) (req_url req) = Threw (HttpError (Some 404) (req_url req))"
    by (simp add: always_404_def attempt_body_def ok_def)
  show ?case
  proof (cases "attempt + 1 > retries")
    case True
    with le b show ?thesis
      by (subst fetch_loop.simps) (simp add: Let_def attempts_def)
  next
    case False
    from Suc.hyps(1) [OF k, of "Some (HttpError (Some 404) (req_url req))"
        "h @ [Fetch req] @ [Sleep (delay * (attempt + 1))]"] le b False
    show ?thesis
      by (subst fetch_loop.simps) (simp add: Let_def attempts_def)
  qed
qed

text \<open>
  C1. The claim wants a 4xx response to end the fetch after one attempt. Both fetchers
  throw the 4xx error inside the \<open>try\<close> block whose \<open>catch\<close> clause implements the
  retry, so the error is caught and the request repeated: with two retries a permanent
  404 is requested three times, with both backoff sleeps, before the error is raised,
  and in general \<open>retries + 1\<close> times.
\<close>

theorem fetchWithTimeout_404_retried:
  "fetchWithTimeout always_404 ''u'' None 9000 2 [] =
     (Inl (HttpError (Some 404) ''u''),
      [Fetch \<lparr>req_url = ''u'', req_headers = None, req_timeout = 9000\<rparr>, Sleep 200,
       Fetch \<lparr>req_url = ''u'', req_headers = None, req_timeout = 9000\<rparr>, Sleep 400,
       Fetch \<lparr>req_url = ''u'', req_headers = None, req_timeout = 9000\<rparr>]) \<and>
   attempts (snd (fetchWithTimeout always_404 url options timeoutMs retries [])) = retries + 1 \<and>
   attempts (snd (hls_fetchWithTimeout always_404 url options timeoutMs retries [])) = retries + 1"
  by (simp add: fetchWithTimeout_def hls_fetchWithTimeout_def fetch_loop_404_attempts)
     (simp add: always_404_def attempt_body_def ok_def attempts_def fetch_loop.simps)


section \<open>Properties of the manifest parser\<close>

lemma sort_key_Num: "sort_key a = Num (key_int a)"
  by (simp add: key_int_def sort_key_def or0_def cmp_value_def Number_of_def
      split: option.splits jsnum.splits)

lemma bandwidth_cmp_value: "cmp_value (bandwidth_cmp a b) = key_int b - key_int a"
  by (simp add: bandwidth_cmp_def sort_key_Num js_minus_def cmp_value_def)

lemma set_js_insert: "set (js_insert cmp x ys) = insert x (set ys)"
  by (induction ys) auto

lemma sorted_js_insert:
  "sorted_wrt (\<lambda>a b. key_int b \<le> key_int a) ys \<Longrightarrow>
   sorted_wrt (\<lambda>a b. key_int b \<le> key_int a) (js_insert bandwidth_cmp x ys)"
  by (induction ys) (auto simp: set_js_insert bandwidth_cmp_value)

lemma sorted_js_sort: "sorted_wrt (\<lambda>a b. key_int b \<le> key_int a) (js_sort bandwidth_cmp xs)"
  by (induction xs) (auto simp: sorted_js_insert)

lemma quality_of_rank: "quality_of env pl baseUrl = Inr q \<Longrightarrow> bandwidth_rank q = key_int pl"
  by (auto simp: quality_of_def attrs_of_def bandwidth_rank_def key_int_def sort_key_def
      Number_or0_def or0_def Number_of_def cmp_value_def empty_attributes_def Let_def
      split: sum.splits option.splits jsnum.splits if_splits)

lemma qualities_loop_rank:
  "qualities_loop env baseUrl pls = Inr qs \<Longrightarrow> map bandwidth_rank qs = map key_int pls"
  by (induction pls arbitrary: qs) (auto simp: quality_of_rank split: sum.splits)

lemma sorted_of_ranks:
  assumes "map bandwidth_rank qs = map key_int pls"
      and "sorted_wrt (\<lambda>a b. key_int b \<le> key_int a) pls"
  shows "sorted_wrt (\<lambda>a b. bandwidth_rank b \<le> bandwidth_rank a) qs"
proof -
  have "sorted_wrt (\<lambda>x y. y \<le> x) (map key_int pls)"
    using assms(2) by (simp add: sorted_wrt_map)
  then have "sorted_wrt (\<lambda>x y. y \<le> x) (map bandwidth_rank qs)"
    by (simp add: assms(1))
  then show ?thesis by (simp add: sorted_wrt_map)
qed

text \<open>
  C4. Whenever the parser returns a manifest, its variants are in descending order of
  bandwidth, a missing or \<open>NaN\<close> bandwidth ranking as zero.
\<close>

theorem parseHLSMaster_sorted:
  "parseHLSMaster env content baseUrl = Some m \<Longrightarrow>
   sorted_wrt (\<lambda>a b. bandwidth_rank b \<le> bandwidth_rank a) (qualities m)"
proof -
  assume a: "parseHLSMaster env content baseUrl = Some m"
  then obtain mf qs where mf: "m3u8_parse env content = Inr mf"
    and qs: "qualities_loop env baseUrl
                  (case playlists mf of
                     None \<Rightarrow> []
                   | Some pls \<Rightarrow> if pls \<noteq> [] then js_sort bandwidth_cmp pls else []) = Inr qs"
    and m: "m = \<lparr>masterUrl = baseUrl, qualities = qs\<rparr>"
    by (auto simp: parseHLSMaster_def split: sum.splits)
  have "sorted_wrt (\<lambda>a b. key_int b \<le> key_int a) (case playlists mf of
                     None \<Rightarrow> []
                   | Some pls \<Rightarrow> if pls \<noteq> [] then js_sort bandwidth_cmp pls else [])"
    by (simp add: sorted_js_sort split: option.splits)
  with qualities_loop_rank [OF qs] have "sorted_wrt (\<lambda>a b. bandwidth_rank b \<le> bandwidth_rank a) qs"
    by (rule sorted_of_ranks)
  then show ?thesis by (simp add: m)
qed


lemma demo_parse:
  "parseHLSMaster demo_hls_env ''#EXTM3U'' ''http://x/master.m3u8'' =
     Some \<lparr>masterUrl = ''http://x/master.m3u8'',
           qualities = [demo_quality 6000000 ''http://x/hi.m3u8'' ''High Quality'',
                        demo_quality 1500000 ''http://x/lo.m3u8'' ''Low Quality'']\<rparr>"
  by (simp add: parseHLSMaster_def demo_hls_env_def demo_playlist_def demo_quality_def
        bandwidth_cmp_def sort_key_def or0_def Number_of_def js_minus_def cmp_value_def
        quality_of_def attrs_of_def playlist_url_def startsWith_def resolution_string_def
        quality_title_def bandwidth_title_def Number_or0_def js_gt_def)

theorem parseHLSMaster_sorted_witness:
  "parseHLSMaster demo_hls_env ''#EXTM3U'' ''http://x/master.m3u8'' =
     Some \<lparr>masterUrl = ''http://x/master.m3u8'',
           qualities = [demo_quality 6000000 ''http://x/hi.m3u8'' ''High Quality'',
                        demo_quality 1500000 ''http://x/lo.m3u8'' ''Low Quality'']\<rparr> \<and>
   sorted_wrt (\<lambda>a b. bandwidth_rank b \<le> bandwidth_rank a)
     [demo_quality 6000000 ''http://x/hi.m3u8'' ''High Quality'',
      demo_quality 1500000 ''http://x/lo.m3u8'' ''Low Quality'']"
  using parseHLSMaster_sorted [OF demo_parse] demo_parse by simp

text \<open>
  C5. The claim gives the labels of a variant with a resolution as the bare bucket names.
  The parser writes the resolution text in front and the bucket in parentheses behind
  it: a 1920x1080 variant is labelled \<open>1920x1080 (1080p)\<close>, not \<open>1080p\<close>.
\<close>

theorem quality_label_counterexample:
  "quality_title \<lparr>BANDWIDTH = Some (Num 6000000),
                  RESOLUTION = Some \<lparr>res_width = Some (Num 1920), res_height = Some (Num 1080)\<rparr>,
                  CODECS = None, FRAME_RATE = None\<rparr> \<noteq> ''1080p''"
  by (simp add: quality_title_def resolution_string_def tpl_num_def show_num_def
        show_nat.simps Number_or0_def js_ge_def)

lemma Number_or0_Num: "Number_or0 v = Num (num_or_zero v)"
  by (simp add: Number_or0_def num_or_zero_def split: option.splits jsnum.splits)

lemma quality_title_amended:
  "quality_title attrs =
     (case RESOLUTION attrs of
        Some r \<Rightarrow>
          (let res = tpl_num (res_width r) @ ''x'' @ tpl_num (res_height r);
               h = num_or_zero (res_height r)
           in if 1080 \<le> h then res @ '' (1080p)''
              else if 720 \<le> h then res @ '' (720p)''
              else if 480 \<le> h then res @ '' (480p)''
              else res)
      | None \<Rightarrow>
          (let b = num_or_zero (BANDWIDTH attrs)
           in if 5000000 < b then ''High Quality''
              else if 2000000 < b then ''Medium Quality''
              else ''Low Quality''))"
  by (simp add: quality_title_def resolution_string_def bandwidth_title_def Number_or0_Num
        js_ge_def js_gt_def Let_def split: option.splits)

text \<open>
  C5, amended. For every variant the parser produces: with a \<open>RESOLUTION\<close> attribute
  the label is the text \<open>WIDTHxHEIGHT\<close> followed by \<open> (1080p)\<close>, \<open> (720p)\<close> or
  \<open> (480p)\<close> for a height of at least 1080, 720 or 480, and the bare text below that;
  without the attribute it is \<open>High Quality\<close> above 5,000,000, \<open>Medium Quality\<close> above
  2,000,000 and \<open>Low Quality\<close> otherwise. A missing or \<open>NaN\<close> height or bandwidth
  counts as zero.
\<close>

theorem quality_label:
  "quality_of env pl baseUrl = Inr q \<Longrightarrow>
   q_title q =
     (case RESOLUTION (attrs_of pl) of
        Some r \<Rightarrow>
          (let res = tpl_num (res_width r) @ ''x'' @ tpl_num (res_height r);
               h = num_or_zero (res_height r)
           in if 1080 \<le> h then res @ '' (1080p)''
              else if 720 \<le> h then res @ '' (720p)''
              else if 480 \<le> h then res @ '' (480p)''
              else res)
      | None \<Rightarrow>
          (let b = num_or_zero (BANDWIDTH (attrs_of pl))
           in if 5000000 < b then ''High Quality''
              else if 2000000 < b then ''Medium Quality''
              else ''Low Quality''))"
proof -
  assume "quality_of env pl baseUrl = Inr q"
  then have "q_title q = quality_title (attrs_of pl)"
    by (auto simp: quality_of_def attrs_of_def Let_def split: sum.splits)
  then show ?thesis by (simp only: quality_title_amended)
qed

lemma hd_quality:
  "quality_of demo_hls_env hd_playlist ''http://x/master.m3u8'' =
     Inr \<lparr>q_resolution = Some ''1280x720'', q_bandwidth = Num 6000000, q_codecs = None,
          q_frameRate = None, q_url = ''http://x/hd.m3u8'', q_title = ''1280x720 (720p)''\<rparr>"
  by (simp add: quality_of_def attrs_of_def hd_playlist_def playlist_url_def startsWith_def
        resolution_string_def quality_title_def tpl_num_def show_num_def show_nat.simps
        Number_or0_def js_ge_def)

theorem quality_label_witness:
  "quality_of demo_hls_env hd_playlist ''http://x/master.m3u8'' =
     Inr \<lparr>q_resolution = Some ''1280x720'', q_bandwidth = Num 6000000, q_codecs = None,
          q_frameRate = None, q_url = ''http://x/hd.m3u8'', q_title = ''1280x720 (720p)''\<rparr> \<and>
   RESOLUTION (attrs_of hd_playlist) =
     Some \<lparr>res_width = Some (Num 1280), res_height = Some (Num 720)\<rparr>"
  using quality_label [OF hd_quality] hd_quality
  by (simp add: attrs_of_def hd_playlist_def)

section \<open>Properties of the embed page loader\<close>

lemma each_server_acc: "each_server els acc = acc @ List.map_filter server_of els"
  by (induction els arbitrary: acc) (auto simp: List.map_filter_simps split: option.splits)

lemma infer_baseDomain_eq: "infer_baseDomain env src h = (Inr (origin_or_default env src), h)"
  by (simp add: infer_baseDomain_def origin_or_default_def catch_def ret_def lift_def Let_def
      split: sum.splits)

lemma serversLoad_failed:
  "parse_failed env html \<Longrightarrow> serversLoad env html h = (Inr default_result, h)"
  by (auto simp: parse_failed_def serversLoad_def catch_def bind_def ret_def lift_def isl_def
      infer_baseDomain_eq split: sum.splits)

lemma serversLoad_loaded:
  assumes "cheerio_load env html = Inr pg" "title_text pg = Inr t" "iframe_src pg = Inr a"
    "server_elems pg = Inr els"
  shows "serversLoad env html h =
           (Inr \<lparr>lr_servers = List.map_filter server_of els, lr_title = trim t,
                 lr_baseDomain = origin_or_default env (case a of None \<Rightarrow> [] | Some s \<Rightarrow> s)\<rparr>, h)"
  using assms
  by (simp add: serversLoad_def catch_def bind_def ret_def lift_def each_server_acc
      infer_baseDomain_eq)

text \<open>
  C6. For every input the loader settles with a result and leaves the history alone.
  When the load or one of the page queries throws, the result is the default one; so it
  is for a page without title text, iframe and server elements. Otherwise the servers
  are exactly the readable elements, in page order: an element that cannot be read is
  left out and the others stay.
\<close>

theorem serversLoad_never_throws:
  "\<exists>r. serversLoad env html h = (Inr r, h) \<and>
       (parse_failed env html \<longrightarrow> r = default_result) \<and>
       (\<forall>pg. cheerio_load env html = Inr pg \<and> title_text pg = Inr [] \<and>
             iframe_src pg = Inr None \<and> server_elems pg = Inr [] \<longrightarrow> r = default_result) \<and>
       (\<forall>pg els. cheerio_load env html = Inr pg \<and> \<not> parse_failed env html \<and>
             server_elems pg = Inr els \<longrightarrow> lr_servers r = List.map_filter server_of els)"
proof (cases "parse_failed env html")
  case True
  then have "serversLoad env html h = (Inr default_result, h)"
    by (rule serversLoad_failed)
  with True show ?thesis by simp
next
  case False
  then obtain pg t a els where pg: "cheerio_load env html = Inr pg" "title_text pg = Inr t"
    "iframe_src pg = Inr a" "server_elems pg = Inr els"
    by (auto simp: parse_failed_def isl_def split: sum.splits) (metis sum.exhaust)
  have r: "serversLoad env html h =
           (Inr \<lparr>lr_servers = List.map_filter server_of els, lr_title = trim t,
                 lr_baseDomain = origin_or_default env (case a of None \<Rightarrow> [] | Some s \<Rightarrow> s)\<rparr>, h)"
    using pg by (rule serversLoad_loaded)
  have "t = [] \<Longrightarrow> a = None \<Longrightarrow> els = [] \<Longrightarrow>
     \<lparr>lr_servers = List.map_filter server_of els, lr_title = trim t,
      lr_baseDomain = origin_or_default env (case a of None \<Rightarrow> [] | Some s \<Rightarrow> s)\<rparr> = default_result"
    by (simp add: origin_or_default_def default_result_def trim_def List.map_filter_simps)
  with r pg False show ?thesis by auto
qed

lemma demo_page_ok: "\<not> parse_failed demo_env ''<html>'' \<and> parse_failed demo_env ''''"
  by (simp add: parse_failed_def demo_env_def demo_page_def)

theorem serversLoad_never_throws_witness:
  "serversLoad demo_env '''' [] = (Inr default_result, []) \<and>
   lr_servers (projr (fst (serversLoad demo_env ''<html>'' []))) =
     [\<lparr>srv_name = ''Alpha'', srv_dataHash = Some ''h1''\<rparr>,
      \<lparr>srv_name = ''Gamma'', srv_dataHash = None\<rparr>]"
  using serversLoad_never_throws [of demo_env "''''" "[]"]
        serversLoad_never_throws [of demo_env "''<html>''" "[]"] demo_page_ok
  by (auto simp: demo_env_def demo_page_def List.map_filter_simps server_of_def trim_def
        is_js_space_def)

section \<open>Properties of the concurrency limiter\<close>

text \<open>The pool terminates: every resumption claims an index or retires a worker.\<close>

lemma set_pending: "set (pending ws) = {w. w < length ws \<and> is_awaiting (ws ! w)}"
  by (auto simp: pending_def)

lemma length_pending: "length (pending ws) = card {w. w < length ws \<and> is_awaiting (ws ! w)}"
proof -
  have "distinct (pending ws)" by (simp add: pending_def)
  then have "card (set (pending ws)) = length (pending ws)" by (rule distinct_card)
  then show ?thesis by (simp add: set_pending)
qed

lemma pick_mem: "ps \<noteq> [] \<Longrightarrow> pick schedule ps \<in> set ps"
  by (simp add: pick_def)

lemma pick_pending:
  "pending ws \<noteq> [] \<Longrightarrow>
   pick schedule (pending ws) < length ws \<and> is_awaiting (ws ! pick schedule (pending ws))"
  using pick_mem [of "pending ws" schedule] by (simp add: set_pending)

lemma awaiting_set_Done:
  "w < length ws \<Longrightarrow>
   {v. v < length ws \<and> is_awaiting (ws[w := Done] ! v)} =
   {v. v < length ws \<and> is_awaiting (ws ! v)} - {w}"
  by (auto simp: nth_list_update)

lemma awaiting_set_Awaiting:
  "w < length ws \<Longrightarrow> is_awaiting (ws ! w) \<Longrightarrow>
   {v. v < length ws \<and> is_awaiting (ws[w := Awaiting j] ! v)} =
   {v. v < length ws \<and> is_awaiting (ws ! v)}"
  by (auto simp: nth_list_update)

lemma pending_Done_less:
  assumes "w < length ws" "is_awaiting (ws ! w)"
  shows "length (pending (ws[w := Done])) < length (pending ws)"
proof -
  let ?A = "{v. v < length ws \<and> is_awaiting (ws ! v)}"
  have fin: "finite ?A" by simp
  have mem: "w \<in> ?A" using assms by simp
  have "card (?A - {w}) < card ?A" using fin mem by (rule card_Diff1_less)
  then show ?thesis using assms(1) by (simp add: length_pending awaiting_set_Done)
qed

lemma pending_Awaiting_same:
  "w < length ws \<Longrightarrow> is_awaiting (ws ! w) \<Longrightarrow>
   length (pending (ws[w := Awaiting j])) = length (pending ws)"
  by (simp add: length_pending awaiting_set_Awaiting)

lemma resume_decreases:
  assumes "pending (p_workers st) \<noteq> []"
    and "(st', h') = resume fn items (pick schedule (pending (p_workers st))) st h"
  shows "pool_measure (length items) st' < pool_measure (length items) st"
proof -
  let ?w = "pick schedule (pending (p_workers st))"
  from pick_pending [OF assms(1)] have w: "?w < length (p_workers st)"
    and aw: "is_awaiting (p_workers st ! ?w)" by simp_all
  from aw obtain idx where idx: "p_workers st ! ?w = Awaiting idx"
    by (cases "p_workers st ! ?w") simp_all
  obtain r h1 where fn: "fn (items ! idx) idx h = (r, h1)" by (cases "fn (items ! idx) idx h")
  from assms(2) [symmetric] idx fn have st': "st' = loop_head (length items) ?w
                  (st\<lparr>p_results := js_set (p_results st) idx (cell_of r)\<rparr>)"
    by (simp add: resume_def)
  show ?thesis
  proof (cases "p_next st < length items")
    case True
    then show ?thesis
      using w aw by (simp add: st' loop_head_def pool_measure_def pending_Awaiting_same)
  next
    case False
    then show ?thesis
      using pending_Done_less [OF w aw] by (simp add: st' loop_head_def pool_measure_def)
  qed
qed

lemma resume_decreases_fst:
  "pending (p_workers st) \<noteq> [] \<Longrightarrow>
   pool_measure (length items) (fst (resume fn items (pick schedule (pending (p_workers st))) st h))
     < pool_measure (length items) st"
  by (rule resume_decreases [where h' = "snd (resume fn items (pick schedule (pending (p_workers st))) st h)"])
     simp_all

termination run_pool
  by (relation "measure (\<lambda>(fn, items, schedule, st, h). pool_measure (length items) st)")
     (simp_all add: case_prod_beta resume_decreases_fst)

declare run_pool.simps [simp del]

lemma length_js_set: "length (js_set xs i v) = max (length xs) (Suc i)"
  by (auto simp: js_set_def)

lemma nth_js_set_same: "js_set xs i v ! i = v"
  by (auto simp: js_set_def nth_append)

lemma nth_js_set_other: "j < length xs \<Longrightarrow> j \<noteq> i \<Longrightarrow> js_set xs i v ! j = xs ! j"
  by (auto simp: js_set_def nth_append)

lemma loop_head_inv:
  assumes "transit_inv Q n limit {w} st" "w < limit"
  shows "transit_inv Q n limit {} (loop_head n w st)"
proof (cases "p_next st < n")
  case True
  have len: "length (p_workers st) = limit" using assms(1) by (simp add: transit_inv_def)
  show ?thesis
    unfolding transit_inv_def
  proof (intro conjI allI impI)
    show "length (p_workers (loop_head n w st)) = limit"
      using len by (simp add: loop_head_def)
    show "p_next (loop_head n w st) \<le> n" using True by (simp add: loop_head_def)
    show "length (p_results (loop_head n w st)) \<le> p_next (loop_head n w st)"
      using assms(1) True by (simp add: loop_head_def transit_inv_def)
  next
    fix v idx
    assume a: "v < limit \<and> v \<notin> {} \<and> p_workers (loop_head n w st) ! v = Awaiting idx"
    show "idx < p_next (loop_head n w st)"
    proof (cases "v = w")
      case True
      with a \<open>p_next st < n\<close> len assms(2) show ?thesis by (simp add: loop_head_def)
    next
      case False
      with a \<open>p_next st < n\<close> have "p_workers st ! v = Awaiting idx" by (simp add: loop_head_def)
      with assms(1) a False have "idx < p_next st" by (auto simp: transit_inv_def)
      with \<open>p_next st < n\<close> show ?thesis by (simp add: loop_head_def)
    qed
  next
    fix idx
    assume a: "idx < p_next (loop_head n w st)"
    show "(idx < length (p_results (loop_head n w st)) \<and> Q idx (p_results (loop_head n w st) ! idx)) \<or>
          (\<exists>v. v < limit \<and> v \<notin> {} \<and> p_workers (loop_head n w st) ! v = Awaiting idx)"
    proof (cases "idx = p_next st")
      case True
      with \<open>p_next st < n\<close> len assms(2) have "p_workers (loop_head n w st) ! w = Awaiting idx"
        by (simp add: loop_head_def)
      with assms(2) show ?thesis by blast
    next
      case False
      with a \<open>p_next st < n\<close> have "idx < p_next st" by (simp add: loop_head_def)
      with assms(1) have "(idx < length (p_results st) \<and> Q idx (p_results st ! idx)) \<or>
         (\<exists>v. v < limit \<and> v \<notin> {w} \<and> p_workers st ! v = Awaiting idx)"
        unfolding transit_inv_def by blast
      then show ?thesis
      proof
        assume "idx < length (p_results st) \<and> Q idx (p_results st ! idx)"
        then show ?thesis using \<open>p_next st < n\<close> by (simp add: loop_head_def)
      next
        assume "\<exists>v. v < limit \<and> v \<notin> {w} \<and> p_workers st ! v = Awaiting idx"
        then obtain v where "v < limit" "v \<noteq> w" "p_workers st ! v = Awaiting idx" by auto
        then have "v < limit \<and> v \<notin> {} \<and> p_workers (loop_head n w st) ! v = Awaiting idx"
          using \<open>p_next st < n\<close> by (simp add: loop_head_def)
        then show ?thesis by blast
      qed
    qed
  next
    fix v
    assume a: "v < limit \<and> v \<notin> {} \<and> p_workers (loop_head n w st) ! v = Done"
    then have "v \<noteq> w" using \<open>p_next st < n\<close> len assms(2) by (auto simp: loop_head_def)
    with a \<open>p_next st < n\<close> have "p_workers st ! v = Done" by (simp add: loop_head_def)
    with assms(1) a \<open>v \<noteq> w\<close> have "p_next st = n" by (auto simp: transit_inv_def)
    with \<open>p_next st < n\<close> show "p_next (loop_head n w st) = n" by simp
  qed
next
  case False
  have len: "length (p_workers st) = limit" using assms(1) by (simp add: transit_inv_def)
  have le: "p_next st \<le> n" using assms(1) by (simp add: transit_inv_def)
  with False have eq: "p_next st = n" by simp
  have lh: "loop_head n w st = st\<lparr>p_workers := (p_workers st)[w := Done]\<rparr>"
    using False by (simp add: loop_head_def)
  show ?thesis
    unfolding transit_inv_def lh
  proof (intro conjI allI impI)
    show "length (p_workers (st\<lparr>p_workers := (p_workers st)[w := Done]\<rparr>)) = limit"
      using len by simp
    show "p_next (st\<lparr>p_workers := (p_workers st)[w := Done]\<rparr>) \<le> n" using le by simp
    show "length (p_results (st\<lparr>p_workers := (p_workers st)[w := Done]\<rparr>))
          \<le> p_next (st\<lparr>p_workers := (p_workers st)[w := Done]\<rparr>)"
      using assms(1) by (simp add: transit_inv_def)
  next
    fix v idx
    assume a: "v < limit \<and> v \<notin> {} \<and> p_workers (st\<lparr>p_workers := (p_workers st)[w := Done]\<rparr>) ! v = Awaiting idx"
    then have "v \<noteq> w" using len assms(2) by auto
    with a have "p_workers st ! v = Awaiting idx" by simp
    with assms(1) a \<open>v \<noteq> w\<close> show "idx < p_next (st\<lparr>p_workers := (p_workers st)[w := Done]\<rparr>)"
      by (auto simp: transit_inv_def)
  next
    fix idx
    assume "idx < p_next (st\<lparr>p_workers := (p_workers st)[w := Done]\<rparr>)"
    then have "idx < p_next st" by simp
    with assms(1) have "(idx < length (p_results st) \<and> Q idx (p_results st ! idx)) \<or>
         (\<exists>v. v < limit \<and> v \<notin> {w} \<and> p_workers st ! v = Awaiting idx)"
      unfolding transit_inv_def by blast
    then show "(idx < length (p_results (st\<lparr>p_workers := (p_workers st)[w := Done]\<rparr>)) \<and>
           Q idx (p_results (st\<lparr>p_workers := (p_workers st)[w := Done]\<rparr>) ! idx)) \<or>
          (\<exists>v. v < limit \<and> v \<notin> {} \<and>
               p_workers (st\<lparr>p_workers := (p_workers st)[w := Done]\<rparr>) ! v = Awaiting idx)"
    proof
      assume "idx < length (p_results st) \<and> Q idx (p_results st ! idx)"
      then show ?thesis by simp
    next
      assume "\<exists>v. v < limit \<and> v \<notin> {w} \<and> p_workers st ! v = Awaiting idx"
      then obtain v where "v < limit" "v \<noteq> w" "p_workers st ! v = Awaiting idx" by auto
      then have "v < limit \<and> v \<notin> {} \<and>
          p_workers (st\<lparr>p_workers := (p_workers st)[w := Done]\<rparr>) ! v = Awaiting idx"
        by simp
      then show ?thesis by blast
    qed
  next
    fix v
    assume "v < limit \<and> v \<notin> {} \<and> p_workers (st\<lparr>p_workers := (p_workers st)[w := Done]\<rparr>) ! v = Done"
    show "p_next (st\<lparr>p_workers := (p_workers st)[w := Done]\<rparr>) = n" using eq by simp
  qed
qed

lemma transit_enter:
  assumes "transit_inv Q n limit {} st" "p_workers st ! w = Unstarted"
  shows "transit_inv Q n limit {w} st"
proof -
  have "\<And>v idx. p_workers st ! v = Awaiting idx \<Longrightarrow> v \<noteq> w" using assms(2) by auto
  with assms(1) show ?thesis unfolding transit_inv_def by blast
qed

lemma transit_write:
  assumes inv: "transit_inv Q n limit {} st" and w: "w < limit"
    and aw: "p_workers st ! w = Awaiting idx" and q: "Q idx c"
  shows "transit_inv Q n limit {w} (st\<lparr>p_results := js_set (p_results st) idx c\<rparr>)"
proof -
  from inv w aw have idx: "idx < p_next st" unfolding transit_inv_def by blast
  from inv have len: "length (p_results st) \<le> p_next st" by (simp add: transit_inv_def)
  have cells: "(j < length (js_set (p_results st) idx c) \<and> Q j (js_set (p_results st) idx c ! j)) \<or>
         (\<exists>v. v < limit \<and> v \<notin> {w} \<and> p_workers st ! v = Awaiting j)"
    if j: "j < p_next st" for j
  proof (cases "j = idx")
    case True
    then show ?thesis using q by (simp add: length_js_set nth_js_set_same less_max_iff_disj)
  next
    case False
    from inv j have "(j < length (p_results st) \<and> Q j (p_results st ! j)) \<or>
         (\<exists>v. v < limit \<and> v \<notin> {} \<and> p_workers st ! v = Awaiting j)"
      unfolding transit_inv_def by blast
    then show ?thesis
    proof
      assume "j < length (p_results st) \<and> Q j (p_results st ! j)"
      then show ?thesis using False
        by (simp add: length_js_set nth_js_set_other less_max_iff_disj)
    next
      assume "\<exists>v. v < limit \<and> v \<notin> {} \<and> p_workers st ! v = Awaiting j"
      then obtain v where v: "v < limit" "p_workers st ! v = Awaiting j" by auto
      with aw False have "v \<noteq> w" by auto
      with v show ?thesis by auto
    qed
  qed
  show ?thesis
    unfolding transit_inv_def
  proof (intro conjI allI impI)
    show "length (p_workers (st\<lparr>p_results := js_set (p_results st) idx c\<rparr>)) = limit"
      using inv by (simp add: transit_inv_def)
    show "p_next (st\<lparr>p_results := js_set (p_results st) idx c\<rparr>) \<le> n"
      using inv by (simp add: transit_inv_def)
    show "length (p_results (st\<lparr>p_results := js_set (p_results st) idx c\<rparr>))
          \<le> p_next (st\<lparr>p_results := js_set (p_results st) idx c\<rparr>)"
      using idx len by (simp add: length_js_set)
  next
    fix v i
    assume "v < limit \<and> v \<notin> {w} \<and>
            p_workers (st\<lparr>p_results := js_set (p_results st) idx c\<rparr>) ! v = Awaiting i"
    with inv show "i < p_next (st\<lparr>p_results := js_set (p_results st) idx c\<rparr>)"
      unfolding transit_inv_def by auto
  next
    fix j
    assume "j < p_next (st\<lparr>p_results := js_set (p_results st) idx c\<rparr>)"
    then have "j < p_next st" by simp
    from cells [OF this]
    show "(j < length (p_results (st\<lparr>p_results := js_set (p_results st) idx c\<rparr>)) \<and>
           Q j (p_results (st\<lparr>p_results := js_set (p_results st) idx c\<rparr>) ! j)) \<or>
          (\<exists>v. v < limit \<and> v \<notin> {w} \<and>
               p_workers (st\<lparr>p_results := js_set (p_results st) idx c\<rparr>) ! v = Awaiting j)"
      by simp
  next
    fix v
    assume "v < limit \<and> v \<notin> {w} \<and>
            p_workers (st\<lparr>p_results := js_set (p_results st) idx c\<rparr>) ! v = Done"
    with inv show "p_next (st\<lparr>p_results := js_set (p_results st) idx c\<rparr>) = n"
      unfolding transit_inv_def by auto
  qed
qed

lemma loop_head_workers:
  "p_workers (loop_head n w st) = (p_workers st)[w := (if p_next st < n then Awaiting (p_next st) else Done)]"
  by (simp add: loop_head_def)

lemma loop_head_started:
  assumes "started k st" "w < length (p_workers st)"
  shows "started k (loop_head n w st) \<and> p_workers (loop_head n w st) ! w \<noteq> Unstarted"
  using assms by (auto simp: started_def loop_head_workers nth_list_update)

lemma spawn_upto_inv:
  "k \<le> limit \<Longrightarrow>
   spawning (Q :: nat \<Rightarrow> 'b cell \<Rightarrow> bool) n limit k
     (foldl (\<lambda>st w. loop_head n w st)
        \<lparr>p_next = 0, p_results = [], p_workers = replicate limit Unstarted\<rparr> [0..<k])"
proof (induction k)
  case 0
  show ?case by (auto simp: spawning_def transit_inv_def started_def)
next
  case (Suc k)
  define st0 :: "'b pool" where "st0 = foldl (\<lambda>st w. loop_head n w st)
        \<lparr>p_next = 0, p_results = [], p_workers = replicate limit Unstarted\<rparr> [0..<k]"
  from Suc.prems have k: "k < limit" by simp
  then have "k \<le> limit" by simp
  then have ih: "spawning Q n limit k st0" unfolding st0_def by (rule Suc.IH)
  then have inv: "transit_inv Q n limit {} st0" by (simp add: spawning_def)
  from ih have un: "p_workers st0 ! k = Unstarted" using k by (simp add: spawning_def)
  from inv un have "transit_inv Q n limit {k} st0" by (rule transit_enter)
  then have inv': "transit_inv Q n limit {} (loop_head n k st0)" using k by (rule loop_head_inv)
  from inv have len: "length (p_workers st0) = limit" by (simp add: transit_inv_def)
  have "spawning Q n limit (Suc k) (loop_head n k st0)"
    unfolding spawning_def
  proof (intro conjI allI impI)
    show "transit_inv Q n limit {} (loop_head n k st0)" by (rule inv')
    show "started (Suc k) (loop_head n k st0)"
      using ih k len
      by (auto simp: spawning_def started_def less_Suc_eq loop_head_workers nth_list_update)
  next
    fix w
    assume "Suc k \<le> w \<and> w < limit"
    then show "p_workers (loop_head n k st0) ! w = Unstarted"
      using ih by (simp add: spawning_def loop_head_workers nth_list_update)
  qed
  then show ?case by (simp add: st0_def)
qed

lemma spawn_ready: "ready Q n limit (spawn limit n)"
  using spawn_upto_inv [of limit limit Q n] by (simp add: spawn_def spawning_def ready_def)

lemma resume_ready:
  assumes rd: "ready Q (length items) limit st"
    and pend: "pending (p_workers st) \<noteq> []"
    and q: "\<And>i h. i < length items \<Longrightarrow> Q i (cell_of (fst (fn (items ! i) i h)))"
    and res: "resume fn items (pick schedule (pending (p_workers st))) st h = (st', h')"
  shows "ready Q (length items) limit st'"
proof -
  let ?w = "pick schedule (pending (p_workers st))"
  from rd have inv: "transit_inv Q (length items) limit {} st" and st: "started limit st"
    by (simp_all add: ready_def)
  from inv have len: "length (p_workers st) = limit" by (simp add: transit_inv_def)
  from pick_pending [OF pend] len have w: "?w < limit"
    and aw: "is_awaiting (p_workers st ! ?w)" by simp_all
  from aw obtain idx where idx: "p_workers st ! ?w = Awaiting idx"
    by (cases "p_workers st ! ?w") simp_all
  from inv w idx have "idx < p_next st" unfolding transit_inv_def by blast
  moreover from inv have "p_next st \<le> length items" by (simp add: transit_inv_def)
  ultimately have il: "idx < length items" by simp
  obtain r h1 where fn: "fn (items ! idx) idx h = (r, h1)" by (cases "fn (items ! idx) idx h")
  from res idx fn have st': "st' = loop_head (length items) ?w
                  (st\<lparr>p_results := js_set (p_results st) idx (cell_of r)\<rparr>)"
    by (simp add: resume_def)
  from q [OF il, of h] fn have "Q idx (cell_of r)" by simp
  with inv w idx
  have "transit_inv Q (length items) limit {?w} (st\<lparr>p_results := js_set (p_results st) idx (cell_of r)\<rparr>)"
    by (rule transit_write)
  then have a: "transit_inv Q (length items) limit {} st'"
    unfolding st' using w by (rule loop_head_inv)
  have "started limit (st\<lparr>p_results := js_set (p_results st) idx (cell_of r)\<rparr>)"
    using st by (simp add: started_def)
  then have "started limit (loop_head (length items) ?w
                  (st\<lparr>p_results := js_set (p_results st) idx (cell_of r)\<rparr>))"
    using w len by (intro loop_head_started [THEN conjunct1]) simp_all
  then have b: "started limit st'" by (simp only: st')
  from a b show ?thesis by (simp add: ready_def)
qed

lemma run_pool_ready:
  assumes "ready Q (length items) limit st"
    and "\<And>i h. i < length items \<Longrightarrow> Q i (cell_of (fst (fn (items ! i) i h)))"
  shows "ready Q (length items) limit (fst (run_pool fn items schedule st h)) \<and>
         pending (p_workers (fst (run_pool fn items schedule st h))) = []"
  using assms
proof (induction fn items schedule st h rule: run_pool.induct)
  case (1 fn items schedule st h)
  show ?case
  proof (cases "pending (p_workers st) = []")
    case True
    then show ?thesis using "1.prems"(1) by (simp add: run_pool.simps)
  next
    case False
    obtain st' h' where res: "resume fn items (pick schedule (pending (p_workers st))) st h = (st', h')"
      by (cases "resume fn items (pick schedule (pending (p_workers st))) st h")
    have rd': "ready Q (length items) limit st'"
      using "1.prems"(1) False "1.prems"(2) res by (rule resume_ready)
    have run: "run_pool fn items schedule st h = run_pool fn items (tl schedule) st' h'"
      using False res by (subst run_pool.simps) simp
    from "1.IH" [OF False res [symmetric] rd' "1.prems"(2)]
    show ?thesis by (simp add: run)
  qed
qed

lemma finished_results:
  assumes rd: "ready Q n limit st"
    and p: "pending (p_workers st) = []" and l: "1 \<le> limit"
  shows "length (p_results st) = n \<and> (\<forall>i. i < n \<longrightarrow> Q i (p_results st ! i))"
proof -
  from rd have inv: "transit_inv Q n limit {} st" and s: "started limit st"
    by (simp_all add: ready_def)
  from inv have len: "length (p_workers st) = limit" by (simp add: transit_inv_def)
  have no_aw: "\<not> is_awaiting (p_workers st ! w)" if "w < limit" for w
  proof
    assume "is_awaiting (p_workers st ! w)"
    with that len have "w \<in> set (pending (p_workers st))" by (simp add: set_pending)
    with p show False by simp
  qed
  have "p_workers st ! 0 = Done"
  proof (cases "p_workers st ! 0")
    case Unstarted
    with s l show ?thesis by (auto simp: started_def)
  next
    case (Awaiting idx)
    with no_aw [of 0] l show ?thesis by simp
  next
    case Done
    then show ?thesis .
  qed
  moreover have "0 < limit \<and> 0 \<notin> ({} :: nat set)" using l by simp
  moreover from inv have "\<forall>w. w < limit \<and> w \<notin> {} \<and> p_workers st ! w = Done \<longrightarrow> p_next st = n"
    unfolding transit_inv_def by blast
  ultimately have next_n: "p_next st = n" by blast
  have cells: "i < length (p_results st) \<and> Q i (p_results st ! i)" if "i < n" for i
  proof -
    from inv that next_n have "(i < length (p_results st) \<and> Q i (p_results st ! i)) \<or>
         (\<exists>w. w < limit \<and> w \<notin> {} \<and> p_workers st ! w = Awaiting i)"
      unfolding transit_inv_def by blast
    then show ?thesis
    proof
      assume "\<exists>w. w < limit \<and> w \<notin> {} \<and> p_workers st ! w = Awaiting i"
      then obtain w where "w < limit" "p_workers st ! w = Awaiting i" by auto
      with no_aw [of w] show ?thesis by simp
    qed
  qed
  from inv next_n have le: "length (p_results st) \<le> n" by (simp add: transit_inv_def)
  have "n \<le> length (p_results st)"
  proof (cases n)
    case 0
    then show ?thesis by simp
  next
    case (Suc m)
    with cells [of m] show ?thesis by simp
  qed
  with le cells show ?thesis by auto
qed

lemma mapWithConcurrencyLimit_cells:
  assumes "1 \<le> limit"
    and "\<And>i h. i < length items \<Longrightarrow> Q i (cell_of (fst (fn (items ! i) i h)))"
  shows "\<exists>rs. fst (mapWithConcurrencyLimit schedule items fn limit h) = Inr rs \<and>
              length rs = length items \<and> (\<forall>i. i < length items \<longrightarrow> Q i (rs ! i))"
proof -
  let ?st = "fst (run_pool fn items schedule (spawn limit (length items)) h)"
  have sp: "ready Q (length items) limit (spawn limit (length items))"
    by (rule spawn_ready)
  have rp: "ready Q (length items) limit ?st \<and> pending (p_workers ?st) = []"
    using sp assms(2) by (rule run_pool_ready)
  have "length (p_results ?st) = length items \<and> (\<forall>i. i < length items \<longrightarrow> Q i (p_results ?st ! i))"
    using rp [THEN conjunct1] rp [THEN conjunct2] assms(1) by (rule finished_results)
  moreover have "fst (mapWithConcurrencyLimit schedule items fn limit h) = Inr (p_results ?st)"
    by (simp add: mapWithConcurrencyLimit_def case_prod_beta)
  ultimately show ?thesis by simp
qed

text \<open>
  C3. With at least one worker, for every schedule of completions, every list of items
  and every callback, the limiter settles with an array as long as the items whose cell
  \<open>i\<close> holds what a call \<open>fn(items[i], i)\<close> settled with: its value, or \<open>null\<close> if it
  rejected. When the outcome of a call is determined by the item and the index, the array
  is exactly the list of these outcomes in input order, whatever the schedule.
\<close>

theorem mapWithConcurrencyLimit_results:
  assumes "1 \<le> limit"
  shows "\<exists>rs. fst (mapWithConcurrencyLimit schedule items fn limit h) = Inr rs \<and>
              length rs = length items \<and>
              (\<forall>i. i < length items \<longrightarrow> (\<exists>h'. rs ! i = cell_of (fst (fn (items ! i) i h')))) \<and>
              ((\<forall>x i h'. fst (fn x i h') = g x i) \<longrightarrow>
                 rs = map (\<lambda>i. case g (items ! i) i of Inl e \<Rightarrow> Null | Inr v \<Rightarrow> Val v)
                        [0..<length items])"
proof -
  from mapWithConcurrencyLimit_cells [OF assms,
      of items "\<lambda>i c. \<exists>h'. c = cell_of (fst (fn (items ! i) i h'))" fn schedule h]
  obtain rs where rs: "fst (mapWithConcurrencyLimit schedule items fn limit h) = Inr rs"
    "length rs = length items"
    "\<forall>i. i < length items \<longrightarrow> (\<exists>h'. rs ! i = cell_of (fst (fn (items ! i) i h')))"
    by auto
  have "rs = map (\<lambda>i. case g (items ! i) i of Inl e \<Rightarrow> Null | Inr v \<Rightarrow> Val v) [0..<length items]"
    if "\<forall>x i h'. fst (fn x i h') = g x i"
    using rs(2,3) that by (intro nth_equalityI) (auto simp: cell_of_def)
  with rs show ?thesis by blast
qed

lemma demo_run:
  "fst (mapWithConcurrencyLimit [1, 0, 0] [''a'', ''b'', ''c''] demo_fn 2 []) =
     Inr [Val ''a!'', Null, Val ''c!'']"
  by code_simp

theorem mapWithConcurrencyLimit_results_witness:
  "(1::nat) \<le> 2 \<and>
   fst (mapWithConcurrencyLimit [1, 0, 0] [''a'', ''b'', ''c''] demo_fn 2 []) =
     Inr [Val ''a!'', Null, Val ''c!''] \<and>
   length [Val ''a!'', Null, Val ''c!''] = length [''a'', ''b'', ''c'']"
  using mapWithConcurrencyLimit_results [of 2 "[1, 0, 0]" "[''a'', ''b'', ''c'']" demo_fn "[]"]
    demo_run by simp

section \<open>Properties of the pipeline\<close>

lemma catch_ret_total: "\<exists>v h'. catch m (\<lambda>e. ret x) h = (Inr v, h')"
  by (cases "m h") (auto simp: catch_def ret_def split: sum.splits)

lemma fetch_embed_total: "\<exists>v h'. fetch_embed env url h = (Inr v, h')"
  unfolding fetch_embed_def by (rule catch_ret_total)

lemma process_item_total: "\<exists>v h'. process_item env t bd i item acc h = (Inr v, h')"
  unfolding process_item_def by (rule catch_ret_total)

lemma stream_loop_total: "\<exists>v h'. stream_loop env t bd i cs acc h = (Inr v, h')"
proof (induction cs arbitrary: acc h)
  case Nil
  show ?case by (simp add: ret_def)
next
  case (Cons c cs)
  show ?case
  proof (cases "item_of c")
    case None
    then show ?thesis using Cons.IH by simp
  next
    case (Some item)
    obtain v h1 where p: "process_item env t bd i item acc h = (Inr v, h1)"
      using process_item_total by blast
    from Cons.IH [of v h1] p Some show ?thesis by (simp add: bind_def)
  qed
qed

lemma mapWithConcurrencyLimit_total:
  "\<exists>v h'. mapWithConcurrencyLimit schedule items fn limit h = (Inr v, h')"
  by (simp add: mapWithConcurrencyLimit_def case_prod_beta)

lemma serversLoad_total: "\<exists>r. serversLoad env html h = (Inr r, h)"
proof (cases "parse_failed env html")
  case True
  then show ?thesis by (simp add: serversLoad_failed)
next
  case False
  then obtain pg t a els where pg: "cheerio_load env html = Inr pg" "title_text pg = Inr t"
    "iframe_src pg = Inr a" "server_elems pg = Inr els"
    by (auto simp: parse_failed_def isl_def split: sum.splits) (metis sum.exhaust)
  then show ?thesis by (simp add: serversLoad_loaded)
qed

lemma attempt_body_Returned: "attempt_body out url = Returned r \<Longrightarrow> answers_ok out"
  by (auto simp: attempt_body_def answers_ok_def Let_def split: outcome.splits if_splits)

lemma fetch_loop_never_ok:
  assumes nw: "\<And>h r. \<not> answers_ok (nw h r)"
  shows "\<exists>e h'. fetch_loop nw delay req retries attempt lastErr h = (Inl e, h')"
proof (induction "Suc retries - attempt" arbitrary: attempt lastErr h)
  case 0
  then have "\<not> attempt \<le> retries" by simp
  then show ?case by (simp add: fetch_loop.simps)
next
  case (Suc k)
  then have le: "attempt \<le> retries" and k: "k = Suc retries - (attempt + 1)" by simp_all
  show ?case
  proof (cases "attempt_body (nw h req) (req_url req)")
    case (Returned r)
    then have "answers_ok (nw h req)" by (rule attempt_body_Returned)
    with nw show ?thesis by simp
  next
    case (FellThrough e)
    from Suc.hyps(1) [OF k, of "Some e" "h @ [Fetch req]"] le FellThrough
    show ?thesis by (subst fetch_loop.simps) simp
  next
    case (Threw e)
    from Suc.hyps(1) [OF k, of "Some e" "h @ [Fetch req] @ [Sleep (delay * (attempt + 1))]"]
      le Threw
    show ?thesis by (subst fetch_loop.simps) (auto simp: Let_def)
  qed
qed

lemma fetch_embed_never_ok:
  assumes "\<And>h r. \<not> answers_ok (net env h r)"
  shows "fst (fetch_embed env url h) = Inr None"
proof -
  obtain e h' where "fetchWithTimeout (net env) url (Some (getRandomizedHeaders None)) 9000 2 h = (Inl e, h')"
    unfolding fetchWithTimeout_def using fetch_loop_never_ok [of "net env", OF assms] by blast
  then show ?thesis by (simp add: fetch_embed_def catch_def bind_def ret_def)
qed

text \<open>
  C2. For every id and type, every network, every behaviour of the DOM, URL and manifest
  libraries and every schedule of the worker pool, \<open>getStreamContent\<close> settles with a
  list and does not reject. On a network that never answers with an ok response the
  list is empty.
\<close>

theorem getStreamContent_never_throws:
  "(\<exists>rs h'. getStreamContent env ident type h = (Inr rs, h')) \<and>
   ((\<forall>h' r. \<not> answers_ok (net env h' r)) \<longrightarrow> fst (getStreamContent env ident type h) = Inr [])"
proof -
  obtain embed h1 where e: "fetch_embed env (getUrl ident type) h = (Inr embed, h1)"
    using fetch_embed_total by blast
  have total: "\<exists>rs h'. getStreamContent env ident type h = (Inr rs, h')"
  proof (cases embed)
    case None
    with e show ?thesis by (simp add: getStreamContent_def bind_def ret_def)
  next
    case (Some embedText)
    obtain loaded where l: "serversLoad env embedText h1 = (Inr loaded, h1)"
      using serversLoad_total by blast
    show ?thesis
    proof (cases "lr_servers loaded = []")
      case True
      with e Some l show ?thesis by (simp add: getStreamContent_def bind_def ret_def)
    next
      case False
      obtain rcpResponses h2 where
        m: "mapWithConcurrencyLimit (sched env) (lr_servers loaded)
              (rcp_callback env (lr_baseDomain loaded)) 4 h1 = (Inr rcpResponses, h2)"
        using mapWithConcurrencyLimit_total by blast
      obtain rs h3 where
        "stream_loop env (lr_title loaded) (lr_baseDomain loaded) ident rcpResponses [] h2 = (Inr rs, h3)"
        using stream_loop_total by blast
      with e Some l False m show ?thesis by (simp add: getStreamContent_def bind_def)
    qed
  qed
  have worst: "fst (getStreamContent env ident type h) = Inr []"
    if "\<forall>h' r. \<not> answers_ok (net env h' r)"
  proof -
    from that have "fst (fetch_embed env (getUrl ident type) h) = Inr None"
      by (intro fetch_embed_never_ok) simp
    with e have "embed = None" by simp
    with e show ?thesis by (simp add: getStreamContent_def bind_def ret_def)
  qed
  from total worst show ?thesis by blast
qed

theorem getStreamContent_never_throws_witness:
  "fst (getStreamContent demo_env ''tt123:1:2'' ''series'' []) = Inr []"
  using getStreamContent_never_throws [of demo_env "''tt123:1:2''" "''series''" "[]"]
  by (simp add: demo_env_def answers_ok_def)

lemma process_item_skip:
  "\<not> startsWith (rcp_data item) ''/prorcp/'' \<Longrightarrow>
   process_item env t bd i item acc h = (Inr acc, h)"
  by (simp add: process_item_def catch_def ret_def)

lemma stream_loop_append:
  "stream_loop env t bd i (xs @ ys) acc h =
     (case stream_loop env t bd i xs acc h of
        (Inl e, h') \<Rightarrow> (Inl e, h')
      | (Inr acc', h') \<Rightarrow> stream_loop env t bd i ys acc' h')"
proof (induction xs arbitrary: acc h)
  case Nil
  show ?case by (simp add: ret_def)
next
  case (Cons c cs)
  show ?case
  proof (cases "item_of c")
    case None
    then show ?thesis using Cons.IH by simp
  next
    case (Some item)
    obtain v h1 where p: "process_item env t bd i item acc h = (Inr v, h1)"
      using process_item_total by blast
    with Some Cons.IH [of v h1] show ?thesis by (simp add: bind_def)
  qed
qed

text \<open>
  C8. An rcp result whose data does not start with \<open>/prorcp/\<close> leaves the result list
  and the history as they are (no request is made for it), and the loop over the rcp
  results runs as if the item were not in the list.
\<close>

theorem non_prorcp_skipped:
  "\<not> startsWith (rcp_data item) ''/prorcp/'' \<Longrightarrow>
   process_item env t bd i item acc h = (Inr acc, h) \<and>
   stream_loop env t bd i (xs @ Val (Some item) # ys) acc h =
     stream_loop env t bd i (xs @ ys) acc h"
proof -
  assume a: "\<not> startsWith (rcp_data item) ''/prorcp/''"
  then have p: "\<And>acc h. process_item env t bd i item acc h = (Inr acc, h)"
    by (rule process_item_skip)
  have step: "stream_loop env t bd i (Val (Some item) # ys) acc' h' = stream_loop env t bd i ys acc' h'"
    for acc' h'
    by (simp add: item_of_def bind_def p)
  have "stream_loop env t bd i (xs @ Val (Some item) # ys) acc h =
     stream_loop env t bd i (xs @ ys) acc h"
    by (simp add: stream_loop_append [of env t bd i xs] step del: stream_loop.simps
          split: prod.splits sum.splits)
  with p show ?thesis by simp
qed

theorem non_prorcp_skipped_witness:
  "stream_loop demo_env ''T'' ''https://b'' ''tt1''
     [Val (Some \<lparr>rcp_image = [], rcp_data = ''/other/abc''\<rparr>)] [] [] = (Inr [], [])"
  using non_prorcp_skipped [of "\<lparr>rcp_image = [], rcp_data = ''/other/abc''\<rparr>" demo_env
      "''T''" "''https://b''" "''tt1''" "[]" "[]" "[]" "[]"]
  by (simp add: startsWith_def ret_def)

lemma PRORCPhandler_empty: "PRORCPhandler env bd [] h = (Inr None, h)"
  by (simp add: PRORCPhandler_def ret_def)

text \<open>
  C10. Called with the empty token the player-page resolver returns \<open>null\<close> and leaves
  the history as it is, for every base domain. An rcp result whose data is exactly
  \<open>/prorcp/\<close> therefore adds nothing to the result list, and the loop runs as if the
  item were not in the list.
\<close>

theorem empty_token_no_fetch:
  "PRORCPhandler env baseDomain [] h = (Inr None, h) \<and>
   process_item env t baseDomain i \<lparr>rcp_image = img, rcp_data = ''/prorcp/''\<rparr> acc h = (Inr acc, h) \<and>
   stream_loop env t baseDomain i (xs @ Val (Some \<lparr>rcp_image = img, rcp_data = ''/prorcp/''\<rparr>) # ys) acc h =
     stream_loop env t baseDomain i (xs @ ys) acc h"
proof -
  have p: "process_item env t baseDomain i \<lparr>rcp_image = img, rcp_data = ''/prorcp/''\<rparr> acc' h' = (Inr acc', h')"
    for acc' h'
    by (simp add: process_item_def startsWith_def PRORCPhandler_empty catch_def bind_def ret_def)
  have step: "stream_loop env t baseDomain i (Val (Some \<lparr>rcp_image = img, rcp_data = ''/prorcp/''\<rparr>) # ys) acc' h' =
        stream_loop env t baseDomain i ys acc' h'" for acc' h'
    by (simp add: item_of_def bind_def p)
  have "stream_loop env t baseDomain i (xs @ Val (Some \<lparr>rcp_image = img, rcp_data = ''/prorcp/''\<rparr>) # ys) acc h =
     stream_loop env t baseDomain i (xs @ ys) acc h"
    by (simp add: stream_loop_append [of env t baseDomain i xs] step del: stream_loop.simps
          split: prod.splits sum.splits)
  with p PRORCPhandler_empty show ?thesis by simp
qed

end
